theory Spec2Isabelle
  imports Complex_Main "HOL-Library.AList" "HOL-Library.Log_Nat"
begin

section \<open>Data model (types.ts)\<close>

text \<open>
  A JavaScript string is a sequence of UTF-16 code units; it is modelled as the list of
  its code units, so that \<open>length\<close>, \<open>startsWith\<close>, \<open>substring\<close> and \<open>padEnd\<close> count
  what the source counts. \<open>lit\<close> writes an ASCII literal.
\<close>

type_synonym jsstring = "nat list"

definition lit :: "string \<Rightarrow> jsstring" where
  "lit s = map of_char s"

text \<open>
  \<open>EventConnection\<close> of types.ts. The free-text \<open>description\<close> is never read by the
  layout, the router or the highlighter and is left out.
\<close>

record EventConnection =
  id_conn :: jsstring
  fromEventId :: jsstring
  toEventId :: jsstring

text \<open>Shorthand for writing concrete connections in examples.\<close>

definition mkConn :: "string \<Rightarrow> string \<Rightarrow> string \<Rightarrow> EventConnection" where
  "mkConn i a b = \<lparr>id_conn = lit i, fromEventId = lit a, toEventId = lit b\<rparr>"

section \<open>Highlight / component colorer (TimelineView.tsx, lines 562-612)\<close>

definition HIGHLIGHT_COLORS :: "jsstring list" where
  "HIGHLIGHT_COLORS =
     [lit ''#3b82f6'', lit ''#10b981'', lit ''#f97316'', lit ''#8b5cf6'',
      lit ''#ef4444'', lit ''#eab308'', lit ''#ec4899'']"

text \<open>
  The inner \<open>for (const conn of eventConnections)\<close> of the breadth-first traversal: the
  state is the queue and the visited set. A neighbour id is pushed only when it is truthy
  (a non-empty string) and not yet visited.
\<close>

fun visitNeighbors ::
  "jsstring \<Rightarrow> EventConnection list \<Rightarrow> jsstring list \<times> jsstring set
     \<Rightarrow> jsstring list \<times> jsstring set" where
  "visitNeighbors currentEventId [] (queue, visited) = (queue, visited)"
| "visitNeighbors currentEventId (conn # conns) (queue, visited) =
     (let neighborId =
            (if fromEventId conn = currentEventId then Some (toEventId conn)
             else if toEventId conn = currentEventId then Some (fromEventId conn)
             else None)
      in case neighborId of
           None \<Rightarrow> visitNeighbors currentEventId conns (queue, visited)
         | Some n \<Rightarrow>
             if n \<noteq> [] \<and> n \<notin> visited
             then visitNeighbors currentEventId conns (queue @ [n], insert n visited)
             else visitNeighbors currentEventId conns (queue, visited))"

definition endpoints :: "EventConnection list \<Rightarrow> jsstring set" where
  "endpoints conns = fromEventId ` set conns \<union> toEventId ` set conns"

definition neighbours :: "EventConnection list \<Rightarrow> jsstring \<Rightarrow> jsstring set" where
  "neighbours conns a =
     {b. \<exists>c \<in> set conns. (fromEventId c = a \<and> toEventId c = b) \<or>
                            (toEventId c = a \<and> fromEventId c = b)}"

lemma visitNeighbors_shape:
  "\<exists>new. visitNeighbors cur cs (q, vis) = (q @ new, vis \<union> set new) \<and> distinct new \<and>
         set new = {b \<in> neighbours cs cur. b \<noteq> [] \<and> b \<notin> vis}"
proof (induction cs arbitrary: q vis)
  case Nil
  show ?case by (simp add: neighbours_def)
next
  case (Cons c cs)
  have nb: "neighbours (c # cs) cur =
      (if fromEventId c = cur then {toEventId c}
       else if toEventId c = cur then {fromEventId c} else {}) \<union> neighbours cs cur"
    by (auto simp: neighbours_def)
  let ?n = "if fromEventId c = cur then Some (toEventId c)
            else if toEventId c = cur then Some (fromEventId c) else None"
  show ?case
  proof (cases "\<exists>n. ?n = Some n \<and> n \<noteq> [] \<and> n \<notin> vis")
    case True
    then obtain n where n: "?n = Some n" "n \<noteq> []" "n \<notin> vis" by blast
    from Cons.IH[of "q @ [n]" "insert n vis"] obtain new where
      new: "visitNeighbors cur cs (q @ [n], insert n vis) = ((q @ [n]) @ new, insert n vis \<union> set new)"
        "distinct new" "set new = {b \<in> neighbours cs cur. b \<noteq> [] \<and> b \<notin> insert n vis}"
      by blast
    have step: "visitNeighbors cur (c # cs) (q, vis) = visitNeighbors cur cs (q @ [n], insert n vis)"
      using n by (auto split: if_splits)
    have nbn: "neighbours (c # cs) cur = insert n (neighbours cs cur)"
      using n nb by (auto split: if_splits)
    have "visitNeighbors cur (c # cs) (q, vis) = (q @ (n # new), vis \<union> set (n # new))"
      using step new(1) by simp
    moreover have "distinct (n # new)" using new(2,3) by auto
    moreover have "set (n # new) = {b \<in> neighbours (c # cs) cur. b \<noteq> [] \<and> b \<notin> vis}"
      using new(3) n(2,3) nbn by auto
    ultimately show ?thesis by blast
  next
    case False
    from Cons.IH[of q vis] obtain new where
      new: "visitNeighbors cur cs (q, vis) = (q @ new, vis \<union> set new)"
        "distinct new" "set new = {b \<in> neighbours cs cur. b \<noteq> [] \<and> b \<notin> vis}"
      by blast
    have step: "visitNeighbors cur (c # cs) (q, vis) = visitNeighbors cur cs (q, vis)"
      using False by (auto split: if_splits)
    have "set new = {b \<in> neighbours (c # cs) cur. b \<noteq> [] \<and> b \<notin> vis}"
      using new(3) False nb by (auto split: if_splits)
    with step new(1,2) show ?thesis by auto
  qed
qed

lemma neighbours_endpoints: "neighbours conns a \<subseteq> endpoints conns"
  by (auto simp: neighbours_def endpoints_def)

lemma visitNeighbors_measure:
  assumes "(queue', visited') = visitNeighbors cur conns (queue, visited)"
  shows "card (endpoints conns - visited') + length queue'
           < Suc (card (endpoints conns - visited) + length queue)"
proof -
  obtain new where new: "visitNeighbors cur conns (queue, visited) = (queue @ new, visited \<union> set new)"
      "distinct new" "set new = {b \<in> neighbours conns cur. b \<noteq> [] \<and> b \<notin> visited}"
    using visitNeighbors_shape by blast
  from assms new(1) have q: "queue' = queue @ new" and v: "visited' = visited \<union> set new" by auto
  have fin: "finite (endpoints conns)" by (simp add: endpoints_def)
  have sub: "set new \<subseteq> endpoints conns - visited"
    using new(3) neighbours_endpoints by auto
  have "endpoints conns - visited' = (endpoints conns - visited) - set new" using v by auto
  then have "card (endpoints conns - visited') = card (endpoints conns - visited) - card (set new)"
    using sub fin by (simp add: card_Diff_subset)
  moreover have cl: "card (set new) = length new" using new(2) by (simp add: distinct_card)
  moreover have "length new \<le> card (endpoints conns - visited)"
    using sub fin cl by (metis card_mono finite_Diff)
  ultimately show ?thesis using q by simp
qed

text \<open>
  The \<open>while (queue.length > 0)\<close> loop: \<open>queue.shift()\<close>, add to the component, scan
  all connections. It terminates because every pushed id is a not yet visited endpoint
  of some connection.
\<close>

function bfs ::
  "EventConnection list \<Rightarrow> jsstring list \<Rightarrow> jsstring set \<Rightarrow> jsstring set \<Rightarrow> jsstring set" where
  "bfs conns [] visited componentEvents = componentEvents"
| "bfs conns (currentEventId # queue) visited componentEvents =
     (case visitNeighbors currentEventId conns (queue, visited) of
        (queue', visited') \<Rightarrow> bfs conns queue' visited' (insert currentEventId componentEvents))"
  by pat_completeness auto
termination
  by (relation "measure (\<lambda>(conns, queue, visited, comp).
                   card (endpoints conns - visited) + length queue)")
     (auto dest: visitNeighbors_measure)

text \<open>
  The greedy colour loop. A JavaScript set of numbers is modelled as the list of its
  members in insertion order; \<open>nodeColorUsage\<close> is a map from event ids to such sets.
  \<open>nextFree used c\<close> is \<open>while (usedColorIndices.has(colorIndex)) { colorIndex++; }\<close>
  started at \<open>c\<close>.
\<close>

function nextFree :: "nat list \<Rightarrow> nat \<Rightarrow> nat" where
  "nextFree usedColorIndices colorIndex =
     (if colorIndex \<in> set usedColorIndices then nextFree usedColorIndices (Suc colorIndex)
      else colorIndex)"
  by pat_completeness auto
termination
proof (relation "measure (\<lambda>(used, c). Suc (Max (set used)) - c)", goal_cases)
  case 1
  show ?case by simp
next
  case (2 used c)
  then have "c \<le> Max (set used)" by simp
  then show ?case by simp
qed

declare nextFree.simps [simp del]

definition setAdd :: "nat \<Rightarrow> nat list \<Rightarrow> nat list" where
  "setAdd k ks = (if k \<in> set ks then ks else ks @ [k])"

definition usedOf :: "(jsstring \<rightharpoonup> nat list) \<Rightarrow> jsstring \<Rightarrow> nat list" where
  "usedOf nodeColorUsage n = (case nodeColorUsage n of None \<Rightarrow> [] | Some ks \<Rightarrow> ks)"

text \<open>One iteration of \<open>for (const conn of componentConnections)\<close>.\<close>

definition colorStep ::
  "EventConnection \<Rightarrow> (jsstring \<rightharpoonup> jsstring \<times> nat) \<times> (jsstring \<rightharpoonup> nat list)
     \<Rightarrow> (jsstring \<rightharpoonup> jsstring \<times> nat) \<times> (jsstring \<rightharpoonup> nat list)" where
  "colorStep conn st =
     (case st of (connectionsToHighlight, nodeColorUsage) \<Rightarrow>
        let fromId = fromEventId conn;
            toId = toEventId conn;
            usage1 = (if nodeColorUsage fromId = None then nodeColorUsage(fromId \<mapsto> [])
                      else nodeColorUsage);
            usage2 = (if usage1 toId = None then usage1(toId \<mapsto> []) else usage1);
            usedColorIndices = usedOf usage2 fromId @ usedOf usage2 toId;
            colorIndex = nextFree usedColorIndices 0;
            finalColorIndex = colorIndex mod length HIGHLIGHT_COLORS;
            highlight' = connectionsToHighlight
              (id_conn conn \<mapsto> (HIGHLIGHT_COLORS ! finalColorIndex, finalColorIndex));
            usage3 = usage2(fromId \<mapsto> setAdd finalColorIndex (usedOf usage2 fromId));
            usage4 = usage3(toId \<mapsto> setAdd finalColorIndex (usedOf usage3 toId))
        in (highlight', usage4))"

text \<open>
  The memo \<open>{ highlightedEvents, highlightedConnectionInfo }\<close>. \<open>hoveredEventId\<close> is
  \<open>string | null\<close>; \<open>!hoveredEventId\<close> holds for \<open>null\<close> and for the empty string.
\<close>

definition highlightedEvents :: "jsstring option \<Rightarrow> EventConnection list \<Rightarrow> jsstring set" where
  "highlightedEvents hoveredEventId eventConnections =
     (case hoveredEventId of
        None \<Rightarrow> {}
      | Some h \<Rightarrow> if h = [] then {} else bfs eventConnections [h] {h} {})"

definition componentConnections :: "jsstring option \<Rightarrow> EventConnection list \<Rightarrow> EventConnection list" where
  "componentConnections hoveredEventId eventConnections =
     filter (\<lambda>conn. fromEventId conn \<in> highlightedEvents hoveredEventId eventConnections \<and>
                     toEventId conn \<in> highlightedEvents hoveredEventId eventConnections)
       eventConnections"

definition highlightedConnectionInfo ::
  "jsstring option \<Rightarrow> EventConnection list \<Rightarrow> (jsstring \<rightharpoonup> jsstring \<times> nat)" where
  "highlightedConnectionInfo hoveredEventId eventConnections =
     (case hoveredEventId of
        None \<Rightarrow> Map.empty
      | Some h \<Rightarrow>
          if h = [] then Map.empty
          else fst (fold colorStep (componentConnections hoveredEventId eventConnections)
                      (Map.empty, Map.empty)))"

text \<open>Vocabulary for stating the colouring property.\<close>

definition sharesEndpoint :: "EventConnection \<Rightarrow> EventConnection \<Rightarrow> bool" where
  "sharesEndpoint c d \<longleftrightarrow>
     fromEventId c = fromEventId d \<or> fromEventId c = toEventId d \<or>
     toEventId c = fromEventId d \<or> toEventId c = toEventId d"

definition colorIndexOf :: "(jsstring \<rightharpoonup> jsstring \<times> nat) \<Rightarrow> EventConnection \<Rightarrow> nat option" where
  "colorIndexOf info c = map_option snd (info (id_conn c))"

text \<open>
  The loop body in a form that evaluates its arguments before it is unfolded; it is
  proved equal to \<open>colorStep\<close> below and only used to run the loop on concrete inputs.
\<close>

definition colorStep3 ::
  "jsstring \<Rightarrow> jsstring \<Rightarrow> jsstring \<Rightarrow> nat list \<Rightarrow> nat \<Rightarrow> (jsstring \<rightharpoonup> jsstring \<times> nat)
     \<Rightarrow> (jsstring \<rightharpoonup> nat list) \<Rightarrow> (jsstring \<rightharpoonup> jsstring \<times> nat) \<times> (jsstring \<rightharpoonup> nat list)" where
  "colorStep3 i f t a k hl us =
     (hl(i \<mapsto> (HIGHLIGHT_COLORS ! k, k)),
      (us(f \<mapsto> setAdd k a))(t \<mapsto> setAdd k (usedOf (us(f \<mapsto> setAdd k a)) t)))"

definition colorStep2 ::
  "jsstring \<Rightarrow> jsstring \<Rightarrow> jsstring \<Rightarrow> nat list \<Rightarrow> nat list \<Rightarrow> (jsstring \<rightharpoonup> jsstring \<times> nat)
     \<Rightarrow> (jsstring \<rightharpoonup> nat list) \<Rightarrow> (jsstring \<rightharpoonup> jsstring \<times> nat) \<times> (jsstring \<rightharpoonup> nat list)" where
  "colorStep2 i f t a b hl us = colorStep3 i f t a (nextFree (a @ b) 0 mod 7) hl us"

text \<open>The invariant of the colour loop, after the connections \<open>ps\<close> have been processed.\<close>

definition colorInv ::
  "EventConnection list \<Rightarrow> (jsstring \<rightharpoonup> jsstring \<times> nat) \<times> (jsstring \<rightharpoonup> nat list) \<Rightarrow> bool" where
  "colorInv ps st \<longleftrightarrow>
     (case st of (hl, us) \<Rightarrow>
        (\<forall>e \<in> set ps. \<exists>k<7. hl (id_conn e) = Some (HIGHLIGHT_COLORS ! k, k) \<and>
             k \<in> set (usedOf us (fromEventId e)) \<and> k \<in> set (usedOf us (toEventId e))) \<and>
        (\<forall>n k. k \<in> set (usedOf us n) \<longrightarrow>
             (\<exists>e \<in> set ps. (fromEventId e = n \<or> toEventId e = n) \<and>
                 hl (id_conn e) = Some (HIGHLIGHT_COLORS ! k, k))) \<and>
        (\<forall>e \<in> set ps. \<forall>e' \<in> set ps. e \<noteq> e' \<and> sharesEndpoint e e' \<longrightarrow>
             colorIndexOf hl e \<noteq> colorIndexOf hl e'))"

section \<open>Date normalizer (TimelineView.tsx, lines 50-164)\<close>

subsection \<open>Numbers\<close>

text \<open>
  A JavaScript number is an IEEE-754 binary64 value. A finite one is modelled by the real
  number it denotes, the others by \<open>PosInf\<close>, \<open>NegInf\<close> and \<open>NaN\<close>; \<open>-0\<close> is identified with
  \<open>0\<close>, which no operation used here tells apart. Every operation that can produce a number
  that is not a binary64 value (\<open>+\<close>, \<open>*\<close>, \<open>parseFloat\<close>) rounds its exact result with
  \<open>toDouble\<close>: round to nearest, ties to even, with gradual underflow and overflow to the
  infinities.
\<close>

datatype jsnum = Num real | PosInf | NegInf | NaN

text \<open>\<open>2^e\<close> for an integer exponent.\<close>

definition pow2 :: "int \<Rightarrow> real" where
  "pow2 e = (if 0 \<le> e then 2 ^ nat e else 1 / 2 ^ nat (- e))"

text \<open>
  The binary exponent of a non-zero real: the \<open>e\<close> with \<open>2^e \<le> |x| < 2^(e+1)\<close>, computed
  from the bit length of the integer part of \<open>|x|\<close>, or of \<open>1/|x|\<close> when \<open>|x| < 1\<close>.
\<close>

definition binade :: "real \<Rightarrow> int" where
  "binade x =
     (if 1 \<le> \<bar>x\<bar> then bitlen \<lfloor>\<bar>x\<bar>\<rfloor> - 1 else - bitlen (\<lceil>1 / \<bar>x\<bar>\<rceil> - 1))"

text \<open>The nearest integer, the even one of the two when \<open>x\<close> lies half way.\<close>

definition roundTiesEven :: "real \<Rightarrow> int" where
  "roundTiesEven x =
     (let f = \<lfloor>x\<rfloor>; d = x - of_int f
      in if d < 1 / 2 then f else if 1 / 2 < d then f + 1 else if even f then f else f + 1)"

text \<open>
  The binary64 value of a real: the nearest multiple of the unit in the last place,
  which is \<open>2^(e-52)\<close> in the binade \<open>e\<close> and \<open>2^(-1074)\<close> below \<open>2^(-1022)\<close>; a result of
  magnitude \<open>2^1024\<close> is an infinity.
\<close>

definition toDouble :: "real \<Rightarrow> jsnum" where
  "toDouble x =
     (if x = 0 then Num 0
      else
        let u = pow2 (max (binade x) (- 1022) - 52);
            r = of_int (roundTiesEven (x / u)) * u
        in if 2 ^ 1024 \<le> \<bar>r\<bar> then (if x < 0 then NegInf else PosInf) else Num r)"

fun jsneg :: "jsnum \<Rightarrow> jsnum" where
  "jsneg (Num x) = Num (- x)"
| "jsneg PosInf = NegInf"
| "jsneg NegInf = PosInf"
| "jsneg NaN = NaN"

fun jsadd :: "jsnum \<Rightarrow> jsnum \<Rightarrow> jsnum" where
  "jsadd (Num x) (Num y) = toDouble (x + y)"
| "jsadd NaN _ = NaN"
| "jsadd _ NaN = NaN"
| "jsadd PosInf NegInf = NaN"
| "jsadd NegInf PosInf = NaN"
| "jsadd PosInf _ = PosInf"
| "jsadd _ PosInf = PosInf"
| "jsadd NegInf _ = NegInf"
| "jsadd _ NegInf = NegInf"

text \<open>\<open>a * b\<close>: an infinity times zero is NaN.\<close>

fun jsmul :: "jsnum \<Rightarrow> jsnum \<Rightarrow> jsnum" where
  "jsmul (Num x) (Num y) = toDouble (x * y)"
| "jsmul NaN _ = NaN"
| "jsmul _ NaN = NaN"
| "jsmul PosInf (Num y) = (if y = 0 then NaN else if 0 < y then PosInf else NegInf)"
| "jsmul NegInf (Num y) = (if y = 0 then NaN else if 0 < y then NegInf else PosInf)"
| "jsmul (Num x) PosInf = (if x = 0 then NaN else if 0 < x then PosInf else NegInf)"
| "jsmul (Num x) NegInf = (if x = 0 then NaN else if 0 < x then NegInf else PosInf)"
| "jsmul PosInf PosInf = PosInf"
| "jsmul PosInf NegInf = NegInf"
| "jsmul NegInf PosInf = NegInf"
| "jsmul NegInf NegInf = PosInf"

text \<open>
  \<open>a / d\<close> for a finite divisor \<open>d\<close> other than zero, the only divisors the code has
  (a count plus one, and 2).
\<close>

fun jsdivBy :: "jsnum \<Rightarrow> real \<Rightarrow> jsnum" where
  "jsdivBy (Num x) d = toDouble (x / d)"
| "jsdivBy PosInf d = (if 0 < d then PosInf else NegInf)"
| "jsdivBy NegInf d = (if 0 < d then NegInf else PosInf)"
| "jsdivBy NaN d = NaN"

text \<open>\<open>Math.abs\<close>.\<close>

fun jsabs :: "jsnum \<Rightarrow> jsnum" where
  "jsabs (Num x) = Num \<bar>x\<bar>"
| "jsabs PosInf = PosInf"
| "jsabs NegInf = PosInf"
| "jsabs NaN = NaN"

definition jssub :: "jsnum \<Rightarrow> jsnum \<Rightarrow> jsnum" where
  "jssub a b = jsadd a (jsneg b)"

text \<open>\<open>a < b\<close> on JavaScript numbers: false whenever an operand is NaN.\<close>

fun jsless :: "jsnum \<Rightarrow> jsnum \<Rightarrow> bool" where
  "jsless (Num x) (Num y) = (x < y)"
| "jsless NaN _ = False"
| "jsless _ NaN = False"
| "jsless NegInf NegInf = False"
| "jsless NegInf _ = True"
| "jsless _ NegInf = False"
| "jsless PosInf _ = False"
| "jsless _ PosInf = True"

text \<open>\<open>v || 0\<close> for a number \<open>v\<close>: NaN and zero are falsy.\<close>

fun orZero :: "jsnum \<Rightarrow> jsnum" where
  "orZero NaN = Num 0"
| "orZero v = v"

subsection \<open>Strings\<close>

text \<open>
  The code units matched by \<open>\s\<close> and removed by \<open>trim()\<close>: TAB, LF, VT, FF, CR, space,
  U+00A0, U+1680, U+2000..U+200A, U+2028, U+2029, U+202F, U+205F, U+3000, U+FEFF.
\<close>

definition isWhiteSpace :: "nat \<Rightarrow> bool" where
  "isWhiteSpace c \<longleftrightarrow>
     c = 9 \<or> c = 10 \<or> c = 11 \<or> c = 12 \<or> c = 13 \<or> c = 32 \<or> c = 160 \<or> c = 5760 \<or>
     (8192 \<le> c \<and> c \<le> 8202) \<or> c = 8232 \<or> c = 8233 \<or> c = 8239 \<or> c = 8287 \<or>
     c = 12288 \<or> c = 65279"

definition trim :: "jsstring \<Rightarrow> jsstring" where
  "trim s = rev (dropWhile isWhiteSpace (rev (dropWhile isWhiteSpace s)))"

definition isDigit :: "nat \<Rightarrow> bool" where
  "isDigit c \<longleftrightarrow> 48 \<le> c \<and> c \<le> 57"

text \<open>The value of a string of decimal digits.\<close>

definition digitsVal :: "jsstring \<Rightarrow> nat" where
  "digitsVal ds = foldl (\<lambda>a c. 10 * a + (c - 48)) 0 ds"

definition startsWith :: "jsstring \<Rightarrow> jsstring \<Rightarrow> bool" where
  "startsWith s p \<longleftrightarrow> take (length p) s = p"

definition padEnd :: "nat \<Rightarrow> nat \<Rightarrow> jsstring \<Rightarrow> jsstring" where
  "padEnd n c s = s @ replicate (n - length s) c"

text \<open>\<open>s.split(sep)\<close> for a one-unit separator: never the empty list.\<close>

fun splitOn :: "nat \<Rightarrow> jsstring \<Rightarrow> jsstring list" where
  "splitOn sep [] = [[]]"
| "splitOn sep (c # cs) =
     (if c = sep then [] # splitOn sep cs
      else (case splitOn sep cs of p # ps \<Rightarrow> (c # p) # ps | [] \<Rightarrow> [[c]]))"

text \<open>\<open>s.indexOf(c)\<close>: \<open>None\<close> stands for \<open>-1\<close>.\<close>

fun indexOf :: "nat \<Rightarrow> jsstring \<Rightarrow> nat option" where
  "indexOf c [] = None"
| "indexOf c (x # xs) = (if x = c then Some 0 else map_option Suc (indexOf c xs))"

text \<open>\<open>xs.findIndex(p)\<close>, with \<open>-1\<close> when nothing is found.\<close>

fun findIndex :: "('a \<Rightarrow> bool) \<Rightarrow> 'a list \<Rightarrow> int" where
  "findIndex p [] = -1"
| "findIndex p (x # xs) =
     (if p x then 0 else (let i = findIndex p xs in if i = -1 then -1 else i + 1))"

subsection \<open>parseFloat and parseInt\<close>

text \<open>
  The exponent part of a decimal literal: \<open>e\<close> or \<open>E\<close>, an optional sign and at least
  one digit; 0 when there is none.
\<close>

definition exponentPart :: "jsstring \<Rightarrow> int" where
  "exponentPart r =
     (case r of
        [] \<Rightarrow> 0
      | e # r1 \<Rightarrow>
          if e = 101 \<or> e = 69 then
            (case r1 of
               [] \<Rightarrow> 0
             | sg # r2 \<Rightarrow>
                 if sg = 45 then
                   (if takeWhile isDigit r2 = [] then 0 else - int (digitsVal (takeWhile isDigit r2)))
                 else if sg = 43 then
                   (if takeWhile isDigit r2 = [] then 0 else int (digitsVal (takeWhile isDigit r2)))
                 else
                   (if takeWhile isDigit r1 = [] then 0 else int (digitsVal (takeWhile isDigit r1))))
          else 0)"

definition scale10 :: "real \<Rightarrow> int \<Rightarrow> real" where
  "scale10 m e = (if 0 \<le> e then m * 10 ^ nat e else m / 10 ^ nat (- e))"

text \<open>
  The numeric value of an unsigned decimal literal at the start of a string:
  \<open>Infinity\<close>, or digits with an optional fraction and exponent; NaN when there is none.
  The exact decimal value is rounded to a binary64 value. (ECMA-262 lets an
  implementation ignore digits after the twentieth significant one; the engines in use
  round the exact value.)
\<close>

definition parseUnsigned :: "jsstring \<Rightarrow> jsnum" where
  "parseUnsigned s1 =
     (if take 8 s1 = lit ''Infinity'' then PosInf
      else
        let ip = takeWhile isDigit s1;
            r1 = dropWhile isDigit s1;
            fp = (case r1 of [] \<Rightarrow> [] | c # r \<Rightarrow> if c = 46 then takeWhile isDigit r else []);
            r2 = (case r1 of [] \<Rightarrow> [] | c # r \<Rightarrow> if c = 46 then dropWhile isDigit r else r1)
        in if ip = [] \<and> fp = [] then NaN
           else toDouble (scale10 (real (digitsVal ip) + real (digitsVal fp) / 10 ^ length fp)
                            (exponentPart r2)))"

text \<open>
  \<open>parseFloat\<close>: leading white space is skipped, then the longest prefix that is a
  decimal literal is read; a leading \<open>-\<close> negates the value of the unsigned literal.
\<close>

definition parseFloat :: "jsstring \<Rightarrow> jsnum" where
  "parseFloat str =
     (let s = dropWhile isWhiteSpace str;
          neg = (case s of [] \<Rightarrow> False | c # _ \<Rightarrow> c = 45);
          s1 = (case s of [] \<Rightarrow> [] | c # r \<Rightarrow> if c = 45 \<or> c = 43 then r else s)
      in if neg then jsneg (parseUnsigned s1) else parseUnsigned s1)"

text \<open>
  \<open>parseInt(s, 10)\<close>: white space, an optional sign, then decimal digits; \<open>None\<close> stands
  for NaN.
\<close>

definition parseInt10 :: "jsstring \<Rightarrow> int option" where
  "parseInt10 str =
     (let s = dropWhile isWhiteSpace str;
          neg = (case s of [] \<Rightarrow> False | c # _ \<Rightarrow> c = 45);
          s1 = (case s of [] \<Rightarrow> [] | c # r \<Rightarrow> if c = 45 \<or> c = 43 then r else s);
          ds = takeWhile isDigit s1
      in if ds = [] then None
         else Some (if neg then - int (digitsVal ds) else int (digitsVal ds)))"

subsection \<open>Date.UTC\<close>

text \<open>
  \<open>Date.UTC(year, month, date, hours, minutes, seconds)\<close> on integers, as ECMA-262
  defines it: years 0 to 99 are read as 1900 to 1999, \<open>MakeDay\<close> carries months outside
  0..11 into the year, and \<open>TimeClip\<close> gives NaN (\<open>None\<close>) beyond 8.64e15 ms.
\<close>

definition DayFromYear :: "int \<Rightarrow> int" where
  "DayFromYear y =
     365 * (y - 1970) + (y - 1969) div 4 - (y - 1901) div 100 + (y - 1601) div 400"

definition InLeapYear :: "int \<Rightarrow> bool" where
  "InLeapYear y \<longleftrightarrow> (y mod 4 = 0 \<and> y mod 100 \<noteq> 0) \<or> y mod 400 = 0"

definition monthStart :: "int \<Rightarrow> int \<Rightarrow> int" where
  "monthStart y mn =
     (let leap = (if InLeapYear y then 1 else 0) in
      if mn = 0 then 0
      else if mn = 1 then 31
      else if mn = 2 then 59 + leap
      else if mn = 3 then 90 + leap
      else if mn = 4 then 120 + leap
      else if mn = 5 then 151 + leap
      else if mn = 6 then 181 + leap
      else if mn = 7 then 212 + leap
      else if mn = 8 then 243 + leap
      else if mn = 9 then 273 + leap
      else if mn = 10 then 304 + leap
      else 334 + leap)"

definition MakeDay :: "int \<Rightarrow> int \<Rightarrow> int \<Rightarrow> int" where
  "MakeDay year month date =
     (let ym = year + month div 12;
          mn = month mod 12
      in DayFromYear ym + monthStart ym mn + date - 1)"

definition MakeTime :: "int \<Rightarrow> int \<Rightarrow> int \<Rightarrow> int \<Rightarrow> int" where
  "MakeTime hour minute sec ms = hour * 3600000 + minute * 60000 + sec * 1000 + ms"

definition MakeDate :: "int \<Rightarrow> int \<Rightarrow> int" where
  "MakeDate day time = day * 86400000 + time"

definition TimeClip :: "int \<Rightarrow> int option" where
  "TimeClip t = (if \<bar>t\<bar> > 8640000000000000 then None else Some t)"

definition MakeFullYear :: "int \<Rightarrow> int" where
  "MakeFullYear y = (if 0 \<le> y \<and> y \<le> 99 then 1900 + y else y)"

definition DateUTC :: "int \<Rightarrow> int \<Rightarrow> int \<Rightarrow> int \<Rightarrow> int \<Rightarrow> int \<Rightarrow> int option" where
  "DateUTC year month date hours minutes seconds =
     TimeClip (MakeDate (MakeDay (MakeFullYear year) month date)
                        (MakeTime hours minutes seconds 0))"

subsection \<open>The regular expressions\<close>

text \<open>
  The common prefix of the two BC patterns, \<open>^(?:\<dots>|BC)\s*\<close> with the flag \<open>i\<close>: the
  three code units U+516C U+5143 U+524D, or \<open>B\<close>/\<open>b\<close> followed by \<open>C\<close>/\<open>c\<close>; the result is what
  follows the white space.
\<close>

definition bcPrefix :: "jsstring \<Rightarrow> jsstring option" where
  "bcPrefix s =
     (if take 3 s = [20844, 20803, 21069] then Some (dropWhile isWhiteSpace (drop 3 s))
      else (case s of
              b # c # r \<Rightarrow>
                if (b = 66 \<or> b = 98) \<and> (c = 67 \<or> c = 99) then Some (dropWhile isWhiteSpace r)
                else None
            | _ \<Rightarrow> None))"

text \<open>Group 1 of \<open>/^(?:\<dots>|BC)\s*(\d+(\.\d+)?)/i\<close> in \<open>normalizeDate\<close>.\<close>

definition matchBC :: "jsstring \<Rightarrow> jsstring option" where
  "matchBC s =
     (case bcPrefix s of
        None \<Rightarrow> None
      | Some r \<Rightarrow>
          let ds = takeWhile isDigit r; r1 = dropWhile isDigit r in
          if ds = [] then None
          else (case r1 of
                  [] \<Rightarrow> Some ds
                | d # r2 \<Rightarrow>
                    if d = 46 \<and> takeWhile isDigit r2 \<noteq> []
                    then Some (ds @ [46] @ takeWhile isDigit r2)
                    else Some ds))"

text \<open>Group 1 of \<open>/^(?:\<dots>|BC)\s*(\d+)/i\<close> in \<open>getDayKey\<close>.\<close>

definition matchBCDay :: "jsstring \<Rightarrow> jsstring option" where
  "matchBCDay s =
     (case bcPrefix s of
        None \<Rightarrow> None
      | Some r \<Rightarrow> if takeWhile isDigit r = [] then None else Some (takeWhile isDigit r))"

text \<open>Group 1 of \<open>/^(\d{4}-\d{2}-\d{2})/\<close>.\<close>

definition matchGregorianDay :: "jsstring \<Rightarrow> jsstring option" where
  "matchGregorianDay s =
     (case s of
        y1 # y2 # y3 # y4 # h1 # m1 # m2 # h2 # d1 # d2 # r \<Rightarrow>
          if isDigit y1 \<and> isDigit y2 \<and> isDigit y3 \<and> isDigit y4 \<and> h1 = 45 \<and>
             isDigit m1 \<and> isDigit m2 \<and> h2 = 45 \<and> isDigit d1 \<and> isDigit d2
          then Some [y1, y2, y3, y4, h1, m1, m2, h2, d1, d2]
          else None
      | _ \<Rightarrow> None)"

text \<open>The optional group \<open>(?:\s+(\d{2}):(\d{2}):(\d{2}))?\<close> applied to what follows the day.\<close>

definition matchTime :: "jsstring \<Rightarrow> (jsstring \<times> jsstring \<times> jsstring) option" where
  "matchTime r =
     (if takeWhile isWhiteSpace r = [] then None
      else (case dropWhile isWhiteSpace r of
              a1 # a2 # c1 # b1 # b2 # c2 # s1 # s2 # _ \<Rightarrow>
                if isDigit a1 \<and> isDigit a2 \<and> c1 = 58 \<and> isDigit b1 \<and> isDigit b2 \<and> c2 = 58 \<and>
                   isDigit s1 \<and> isDigit s2
                then Some ([a1, a2], [b1, b2], [s1, s2])
                else None
            | _ \<Rightarrow> None))"

text \<open>
  The groups of \<open>/^(\d{4})-(\d{2})-(\d{2})(?:\s+(\d{2}):(\d{2}):(\d{2}))?/\<close>: year, month,
  day and the optional time.
\<close>

definition matchGregorian ::
  "jsstring \<Rightarrow> (jsstring \<times> jsstring \<times> jsstring \<times> (jsstring \<times> jsstring \<times> jsstring) option) option" where
  "matchGregorian s =
     (case matchGregorianDay s of
        None \<Rightarrow> None
      | Some g \<Rightarrow> Some (take 4 g, take 2 (drop 5 g), drop 8 g, matchTime (drop 10 s)))"

subsection \<open>normalizeDate and getDayKey\<close>

definition ERA_MULTIPLIER :: real where
  "ERA_MULTIPLIER = 100000000000000"

text \<open>The name of the Gregorian anchor era: U+516C U+5143 U+7EAA U+5E74.\<close>

definition GREGORIAN_ANCHOR :: jsstring where
  "GREGORIAN_ANCHOR = [20844, 20803, 32426, 24180]"

definition anchorIndexOf :: "jsstring list \<Rightarrow> int" where
  "anchorIndexOf eraOrder =
     (let gregorianAnchorIndex = findIndex (\<lambda>era. era = GREGORIAN_ANCHOR) eraOrder
      in if gregorianAnchorIndex = -1 then 0 else gregorianAnchorIndex)"

text \<open>The value computed inside the era loop once \<open>eraOrder[i]\<close> is a prefix of the date.\<close>

definition eraValue :: "jsstring \<Rightarrow> jsstring \<Rightarrow> int \<Rightarrow> int \<Rightarrow> jsnum" where
  "eraValue trimmedDate era i anchorIndex =
     (let valueStr = trim (drop (length era) trimmedDate);
          eraBaseValue = jsmul (Num (real_of_int (i - anchorIndex))) (Num ERA_MULTIPLIER);
          parts = splitOn 46 valueStr;
          year = hd parts;
          fraction = (case tl parts of [] \<Rightarrow> [] | f # _ \<Rightarrow> f);
          paddedFraction = padEnd 10 48 fraction;
          numericValue = parseFloat (year @ [46] @ paddedFraction)
      in jsadd eraBaseValue (orZero numericValue))"

text \<open>\<open>for (let i = 0; i < eraOrder.length; i++)\<close>, started at index \<open>i\<close>.\<close>

fun eraLoop :: "jsstring \<Rightarrow> int \<Rightarrow> jsstring list \<Rightarrow> int \<Rightarrow> jsnum" where
  "eraLoop trimmedDate anchorIndex [] i = PosInf"
| "eraLoop trimmedDate anchorIndex (era # eras) i =
     (if startsWith trimmedDate era then eraValue trimmedDate era i anchorIndex
      else eraLoop trimmedDate anchorIndex eras (i + 1))"

text \<open>
  The Gregorian branch. A missing time group defaults to \<open>'00'\<close> three times. A time
  value that \<open>TimeClip\<close> lets through is an integer below \<open>2^53\<close>, hence a binary64 value.
\<close>

definition gregorianValue ::
  "jsstring \<times> jsstring \<times> jsstring \<times> (jsstring \<times> jsstring \<times> jsstring) option \<Rightarrow> jsnum" where
  "gregorianValue g =
     (case g of (year, month, day, time) \<Rightarrow>
        let (hour, minute, second) =
              (case time of None \<Rightarrow> ([48, 48], [48, 48], [48, 48]) | Some t \<Rightarrow> t)
        in case (parseInt10 year, parseInt10 month, parseInt10 day,
                 parseInt10 hour, parseInt10 minute, parseInt10 second) of
             (Some y, Some mo, Some d, Some h, Some mi, Some s) \<Rightarrow>
               (case DateUTC y (mo - 1) d h mi s of
                  None \<Rightarrow> PosInf
                | Some date \<Rightarrow> Num (real_of_int date))
           | _ \<Rightarrow> PosInf)"

definition normalizeDate :: "jsstring \<Rightarrow> jsstring list \<Rightarrow> jsnum" where
  "normalizeDate dateString eraOrder =
     (if dateString = [] then PosInf
      else
        let trimmedDate = trim dateString in
        case matchBC trimmedDate of
          Some g \<Rightarrow> jsneg (parseFloat g)
        | None \<Rightarrow>
            (case matchGregorian trimmedDate of
               Some g \<Rightarrow> gregorianValue g
             | None \<Rightarrow> eraLoop trimmedDate (anchorIndexOf eraOrder) eraOrder 0))"

definition getDayKey :: "jsstring \<Rightarrow> jsstring" where
  "getDayKey dateString =
     (if dateString = [] then lit ''NoDate''
      else
        let trimmed = trim dateString in
        case matchBCDay trimmed of
          Some ds \<Rightarrow> lit ''BC-'' @ ds
        | None \<Rightarrow>
            (case matchGregorianDay trimmed of
               Some g \<Rightarrow> g
             | None \<Rightarrow>
                 (case indexOf 32 trimmed of
                    None \<Rightarrow> trimmed
                  | Some firstSpaceIndex \<Rightarrow>
                      if firstSpaceIndex > 0
                      then take firstSpaceIndex trimmed @ [32] @
                           hd (splitOn 46 (drop (firstSpaceIndex + 1) trimmed))
                      else trimmed)))"

section \<open>Layout engine (TimelineView.tsx, lines 18-30 and 252-402)\<close>

text \<open>
  \<open>StoryEvent\<close>, \<open>Storyline\<close> and \<open>EventType\<close> of types.ts, with the fields the engine reads.
  \<open>storylineId\<close> and \<open>typeId\<close> are \<open>string | null\<close>.
\<close>

record StoryEvent =
  id_event :: jsstring
  date :: jsstring
  storylineId :: "jsstring option"
  typeId :: "jsstring option"

record Storyline =
  id_storyline :: jsstring

record EventType =
  id_type :: jsstring

text \<open>Shorthand for writing concrete events in examples.\<close>

definition mkEvent :: "string \<Rightarrow> string \<Rightarrow> string \<Rightarrow> string \<Rightarrow> StoryEvent" where
  "mkEvent i d s t =
     \<lparr>id_event = lit i, date = lit d, storylineId = Some (lit s), typeId = Some (lit t)\<rparr>"

subsection \<open>Layout constants\<close>

text \<open>
  Coordinates are JavaScript numbers. Every value the layout engine computes is a sum of
  the integer constants below, or half of such a sum; these are binary64 values as long
  as they stay below \<open>2^52\<close>, which they do for any timeline that fits in memory, and
  binary64 arithmetic is exact on them. The layout is therefore modelled on the reals,
  without rounding.
\<close>

definition EVENT_WIDTH :: real where "EVENT_WIDTH = 200"
definition EVENT_GAP :: real where "EVENT_GAP = 80"
definition PADDING_X :: real where "PADDING_X = 20"
definition EVENT_CARD_HEIGHT :: real where "EVENT_CARD_HEIGHT = 120"
definition CAPSULE_HEIGHT :: real where "CAPSULE_HEIGHT = 40"
definition SAME_DAY_VERTICAL_GAP :: real where "SAME_DAY_VERTICAL_GAP = 25"
definition SAME_DAY_CONNECTED_EVENT_GAP :: real where "SAME_DAY_CONNECTED_EVENT_GAP = 40"
definition LANE_VERTICAL_PADDING :: real where "LANE_VERTICAL_PADDING = 20"
definition MIN_LANE_HEIGHT :: real where "MIN_LANE_HEIGHT = CAPSULE_HEIGHT + 2 * LANE_VERTICAL_PADDING"
definition INDENTATION_STEP :: real where "INDENTATION_STEP = 20"
definition MAX_INDENTATION_LEVEL :: nat where "MAX_INDENTATION_LEVEL = 10"

subsection \<open>Complete events, sorted by date\<close>

text \<open>Truthiness of a \<open>string | null\<close>: neither \<open>null\<close> nor the empty string.\<close>

definition truthy :: "jsstring option \<Rightarrow> bool" where
  "truthy v \<longleftrightarrow> (case v of None \<Rightarrow> False | Some s \<Rightarrow> s \<noteq> [])"

definition isComplete :: "StoryEvent \<Rightarrow> bool" where
  "isComplete e \<longleftrightarrow> truthy (storylineId e) \<and> truthy (typeId e) \<and> date e \<noteq> []"

text \<open>\<open>v > 0\<close> for the value a comparator returns; NaN counts as 0.\<close>

definition jspositive :: "jsnum \<Rightarrow> bool" where
  "jspositive v \<longleftrightarrow> jsless (Num 0) v"

text \<open>
  \<open>Array.prototype.sort(cmp)\<close> is stable; it is modelled as the stable insertion sort:
  an element is placed before the first one it does not compare greater than.
\<close>

fun insertSorted :: "('a \<Rightarrow> 'a \<Rightarrow> jsnum) \<Rightarrow> 'a \<Rightarrow> 'a list \<Rightarrow> 'a list" where
  "insertSorted cmp a [] = [a]"
| "insertSorted cmp a (b # bs) =
     (if jspositive (cmp a b) then b # insertSorted cmp a bs else a # b # bs)"

definition sortBy :: "('a \<Rightarrow> 'a \<Rightarrow> jsnum) \<Rightarrow> 'a list \<Rightarrow> 'a list" where
  "sortBy cmp xs = foldr (insertSorted cmp) xs []"

definition sortedEventsOf :: "StoryEvent list \<Rightarrow> jsstring list \<Rightarrow> StoryEvent list" where
  "sortedEventsOf events eraOrder =
     sortBy (\<lambda>a b. jssub (normalizeDate (date a) eraOrder) (normalizeDate (date b) eraOrder))
       (filter isComplete events)"

subsection \<open>Day groups and day columns\<close>

text \<open>
  A JavaScript \<open>Map\<close> that is iterated is an association list in insertion order:
  \<open>AList.update\<close> replaces the value of a present key in place and appends a new key.
  \<open>pushTo k v m\<close> is \<open>if (!m.has(k)) m.set(k, []); m.get(k).push(v)\<close>.
\<close>

definition pushTo :: "jsstring \<Rightarrow> 'a \<Rightarrow> (jsstring \<times> 'a list) list \<Rightarrow> (jsstring \<times> 'a list) list" where
  "pushTo k v m =
     (case map_of m k of
        None \<Rightarrow> AList.update k [v] m
      | Some vs \<Rightarrow> AList.update k (vs @ [v]) m)"

definition groupByDay :: "StoryEvent list \<Rightarrow> (jsstring \<times> StoryEvent list) list" where
  "groupByDay evs = foldl (\<lambda>m e. pushTo (getDayKey (date e)) e m) [] evs"

text \<open>
  \<open>eventsByDay.get(k)![0].date\<close>. Every key of \<open>eventsByDay\<close> has a non-empty list; the
  other cases cannot be reached.
\<close>

definition firstDateOf :: "(jsstring \<times> StoryEvent list) list \<Rightarrow> jsstring \<Rightarrow> jsstring" where
  "firstDateOf eventsByDay k =
     (case map_of eventsByDay k of Some (e # _) \<Rightarrow> date e | _ \<Rightarrow> [])"

definition sortedUniqueDaysOf ::
  "(jsstring \<times> StoryEvent list) list \<Rightarrow> jsstring list \<Rightarrow> jsstring list" where
  "sortedUniqueDaysOf eventsByDay eraOrder =
     sortBy (\<lambda>a b. jssub (normalizeDate (firstDateOf eventsByDay a) eraOrder)
                          (normalizeDate (firstDateOf eventsByDay b) eraOrder))
       (map fst eventsByDay)"

text \<open>\<open>sameDayEvents.forEach((event, index) => levels.set(event.id, index))\<close> for every day.\<close>

definition setLevels :: "(jsstring \<rightharpoonup> nat) \<Rightarrow> StoryEvent list \<Rightarrow> (jsstring \<rightharpoonup> nat)" where
  "setLevels m evs = foldl (\<lambda>m (i, e). m(id_event e \<mapsto> i)) m (enumerate 0 evs)"

definition eventIndentationLevelsOf :: "(jsstring \<times> StoryEvent list) list \<Rightarrow> (jsstring \<rightharpoonup> nat)" where
  "eventIndentationLevelsOf eventsByDay = foldl (\<lambda>m (k, evs). setLevels m evs) Map.empty eventsByDay"

text \<open>\<open>Math.min(levels.get(event.id) || 0, MAX_INDENTATION_LEVEL)\<close>.\<close>

definition indentationLevel :: "(jsstring \<rightharpoonup> nat) \<Rightarrow> StoryEvent \<Rightarrow> nat" where
  "indentationLevel levels e =
     min (case levels (id_event e) of None \<Rightarrow> 0 | Some i \<Rightarrow> i) MAX_INDENTATION_LEVEL"

definition maxEventWidthOf :: "(jsstring \<rightharpoonup> nat) \<Rightarrow> StoryEvent list \<Rightarrow> real" where
  "maxEventWidthOf levels sameDayEvents =
     foldl (\<lambda>maxEventWidth e.
              let eventTotalWidth = real (indentationLevel levels e) * INDENTATION_STEP + EVENT_WIDTH
              in if eventTotalWidth > maxEventWidth then eventTotalWidth else maxEventWidth)
       EVENT_WIDTH sameDayEvents"

definition dayColumnContentWidthsOf ::
  "(jsstring \<times> StoryEvent list) list \<Rightarrow> (jsstring \<rightharpoonup> nat) \<Rightarrow> (jsstring \<rightharpoonup> real)" where
  "dayColumnContentWidthsOf eventsByDay levels =
     foldl (\<lambda>m (dayKey, sameDayEvents). m(dayKey \<mapsto> maxEventWidthOf levels sameDayEvents))
       Map.empty eventsByDay"

record Column =
  x_column :: real
  width_column :: real

text \<open>
  \<open>for (const dayKey of sortedUniqueDays)\<close> with the running \<open>currentX\<close>; the result is the
  map and the final \<open>currentX\<close>. A width is never 0, so \<open>|| EVENT_WIDTH\<close> only covers a
  missing key.
\<close>

fun columnLoop ::
  "(jsstring \<rightharpoonup> real) \<Rightarrow> jsstring list \<Rightarrow> real \<Rightarrow> (jsstring \<rightharpoonup> Column)
     \<Rightarrow> (jsstring \<rightharpoonup> Column) \<times> real" where
  "columnLoop widths [] currentX geos = (geos, currentX)"
| "columnLoop widths (dayKey # days) currentX geos =
     (let contentWidth = (case widths dayKey of None \<Rightarrow> EVENT_WIDTH
                          | Some w \<Rightarrow> if w = 0 then EVENT_WIDTH else w)
      in columnLoop widths days (currentX + contentWidth + EVENT_GAP)
           (geos(dayKey \<mapsto> \<lparr>x_column = currentX, width_column = contentWidth\<rparr>)))"

subsection \<open>Lanes and day stacks\<close>

text \<open>
  \<open>eventsByStorylineAndDay\<close>: an empty day map per storyline, then every sorted event is
  pushed into the day list of its storyline, when that storyline exists.
\<close>

definition initStorylineMaps ::
  "Storyline list \<Rightarrow> (jsstring \<times> (jsstring \<times> StoryEvent list) list) list" where
  "initStorylineMaps storylines = foldl (\<lambda>m s. AList.update (id_storyline s) [] m) [] storylines"

definition addToStoryline ::
  "(jsstring \<times> (jsstring \<times> StoryEvent list) list) list \<Rightarrow> StoryEvent
     \<Rightarrow> (jsstring \<times> (jsstring \<times> StoryEvent list) list) list" where
  "addToStoryline m e =
     (case storylineId e of
        None \<Rightarrow> m
      | Some sid \<Rightarrow>
          (case map_of m sid of
             None \<Rightarrow> m
           | Some storylineMap \<Rightarrow>
               AList.update sid (pushTo (getDayKey (date e)) e storylineMap) m))"

definition eventsByStorylineAndDayOf ::
  "Storyline list \<Rightarrow> StoryEvent list \<Rightarrow> (jsstring \<times> (jsstring \<times> StoryEvent list) list) list" where
  "eventsByStorylineAndDayOf storylines sortedEvents =
     foldl addToStoryline (initStorylineMaps storylines) sortedEvents"

definition eventHeight :: "jsstring set \<Rightarrow> StoryEvent \<Rightarrow> real" where
  "eventHeight expandedEvents e =
     (if id_event e \<in> expandedEvents then EVENT_CARD_HEIGHT else CAPSULE_HEIGHT)"

definition isConnected :: "EventConnection list \<Rightarrow> StoryEvent \<Rightarrow> StoryEvent \<Rightarrow> bool" where
  "isConnected eventConnections e nextEvent \<longleftrightarrow>
     list_ex (\<lambda>conn. (fromEventId conn = id_event e \<and> toEventId conn = id_event nextEvent) \<or>
                      (fromEventId conn = id_event nextEvent \<and> toEventId conn = id_event e))
       eventConnections"

definition gapAfter :: "EventConnection list \<Rightarrow> StoryEvent \<Rightarrow> StoryEvent \<Rightarrow> real" where
  "gapAfter eventConnections e nextEvent =
     (if isConnected eventConnections e nextEvent then SAME_DAY_CONNECTED_EVENT_GAP
      else SAME_DAY_VERTICAL_GAP)"

text \<open>
  The height of one day stack: the heights of its events and the gaps between
  consecutive ones (the loops at lines 329-339 and 364-373).
\<close>

fun stackHeightOf :: "jsstring set \<Rightarrow> EventConnection list \<Rightarrow> StoryEvent list \<Rightarrow> real" where
  "stackHeightOf expandedEvents conns [] = 0"
| "stackHeightOf expandedEvents conns [e] = eventHeight expandedEvents e"
| "stackHeightOf expandedEvents conns (e # nextEvent # rest) =
     eventHeight expandedEvents e + gapAfter conns e nextEvent +
     stackHeightOf expandedEvents conns (nextEvent # rest)"

definition maxColumnHeightOf ::
  "jsstring set \<Rightarrow> EventConnection list \<Rightarrow> (jsstring \<times> StoryEvent list) list \<Rightarrow> real" where
  "maxColumnHeightOf expandedEvents conns storylineDayMap =
     foldl (\<lambda>maxColumnHeight (k, sameDayEvents).
              max maxColumnHeight (stackHeightOf expandedEvents conns sameDayEvents))
       0 storylineDayMap"

record Lane =
  y_lane :: real
  height_lane :: real

definition laneHeightOf ::
  "jsstring set \<Rightarrow> EventConnection list
     \<Rightarrow> (jsstring \<times> (jsstring \<times> StoryEvent list) list) list \<Rightarrow> Storyline \<Rightarrow> real" where
  "laneHeightOf expandedEvents conns byStoryline storyline =
     (let maxColumnHeight =
            (case map_of byStoryline (id_storyline storyline) of
               None \<Rightarrow> 0
             | Some storylineDayMap \<Rightarrow> maxColumnHeightOf expandedEvents conns storylineDayMap)
      in max MIN_LANE_HEIGHT (maxColumnHeight + 2 * LANE_VERTICAL_PADDING))"

text \<open>\<open>for (const storyline of storylines)\<close> with the running \<open>currentY\<close>.\<close>

fun laneLoop ::
  "jsstring set \<Rightarrow> EventConnection list
     \<Rightarrow> (jsstring \<times> (jsstring \<times> StoryEvent list) list) list
     \<Rightarrow> Storyline list \<Rightarrow> real \<Rightarrow> (jsstring \<rightharpoonup> Lane) \<Rightarrow> (jsstring \<rightharpoonup> Lane) \<times> real" where
  "laneLoop expandedEvents conns byStoryline [] currentY geos = (geos, currentY)"
| "laneLoop expandedEvents conns byStoryline (storyline # rest) currentY geos =
     (let laneHeight = laneHeightOf expandedEvents conns byStoryline storyline
      in laneLoop expandedEvents conns byStoryline rest (currentY + laneHeight)
           (geos(id_storyline storyline \<mapsto> \<lparr>y_lane = currentY, height_lane = laneHeight\<rparr>)))"

subsection \<open>Event rectangles\<close>

record Layout =
  x_layout :: real
  y_layout :: real
  width_layout :: real
  height_layout :: real
  event_layout :: StoryEvent
  storyline_layout :: Storyline
  eventType_layout :: EventType

text \<open>
  The placement loop of one day stack (lines 378-399), from the running
  \<open>currentStackY\<close>. An event whose type is not found is skipped by \<open>continue\<close>, before
  \<open>currentStackY\<close> is advanced.
\<close>

fun placeStack ::
  "EventType list \<Rightarrow> (jsstring \<rightharpoonup> nat) \<Rightarrow> jsstring set \<Rightarrow> EventConnection list
     \<Rightarrow> Storyline \<Rightarrow> real \<Rightarrow> StoryEvent list \<Rightarrow> real \<Rightarrow> (jsstring \<rightharpoonup> Layout)
     \<Rightarrow> (jsstring \<rightharpoonup> Layout)" where
  "placeStack eventTypes levels expandedEvents conns storyline baseX [] currentStackY layouts = layouts"
| "placeStack eventTypes levels expandedEvents conns storyline baseX (e # rest) currentStackY layouts =
     (case find (\<lambda>et. Some (id_type et) = typeId e) eventTypes of
        None \<Rightarrow>
          placeStack eventTypes levels expandedEvents conns storyline baseX rest currentStackY layouts
      | Some eventType \<Rightarrow>
          let xOffset = real (indentationLevel levels e) * INDENTATION_STEP;
              height = eventHeight expandedEvents e;
              gap = (case rest of [] \<Rightarrow> SAME_DAY_VERTICAL_GAP
                     | nextEvent # _ \<Rightarrow> gapAfter conns e nextEvent)
          in placeStack eventTypes levels expandedEvents conns storyline baseX rest
               (currentStackY + height + gap)
               (layouts(id_event e \<mapsto>
                  \<lparr>x_layout = baseX + xOffset, y_layout = currentStackY,
                   width_layout = EVENT_WIDTH, height_layout = height,
                   event_layout = e, storyline_layout = storyline,
                   eventType_layout = eventType\<rparr>)))"

text \<open>The loop over the day entries of one storyline (lines 358-400).\<close>

fun placeDays ::
  "EventType list \<Rightarrow> (jsstring \<rightharpoonup> nat) \<Rightarrow> jsstring set \<Rightarrow> EventConnection list
     \<Rightarrow> (jsstring \<rightharpoonup> Column) \<Rightarrow> Storyline \<Rightarrow> Lane
     \<Rightarrow> (jsstring \<times> StoryEvent list) list \<Rightarrow> (jsstring \<rightharpoonup> Layout) \<Rightarrow> (jsstring \<rightharpoonup> Layout)" where
  "placeDays eventTypes levels expandedEvents conns columns storyline laneGeo [] layouts = layouts"
| "placeDays eventTypes levels expandedEvents conns columns storyline laneGeo
       ((dayKey, sameDayEvents) # rest) layouts =
     (case columns dayKey of
        None \<Rightarrow>
          placeDays eventTypes levels expandedEvents conns columns storyline laneGeo rest layouts
      | Some columnGeo \<Rightarrow>
          let baseX = x_column columnGeo;
              stackHeight = stackHeightOf expandedEvents conns sameDayEvents;
              stackStartY = y_lane laneGeo + (height_lane laneGeo - stackHeight) / 2
          in placeDays eventTypes levels expandedEvents conns columns storyline laneGeo rest
               (placeStack eventTypes levels expandedEvents conns storyline baseX
                  sameDayEvents stackStartY layouts))"

text \<open>The outer loop over the storylines (lines 353-402).\<close>

fun placeStorylines ::
  "EventType list \<Rightarrow> (jsstring \<rightharpoonup> nat) \<Rightarrow> jsstring set \<Rightarrow> EventConnection list
     \<Rightarrow> (jsstring \<rightharpoonup> Column) \<Rightarrow> (jsstring \<rightharpoonup> Lane)
     \<Rightarrow> (jsstring \<times> (jsstring \<times> StoryEvent list) list) list
     \<Rightarrow> Storyline list \<Rightarrow> (jsstring \<rightharpoonup> Layout) \<Rightarrow> (jsstring \<rightharpoonup> Layout)" where
  "placeStorylines eventTypes levels expandedEvents conns columns lanes byStoryline [] layouts = layouts"
| "placeStorylines eventTypes levels expandedEvents conns columns lanes byStoryline
       (storyline # rest) layouts =
     (case lanes (id_storyline storyline) of
        None \<Rightarrow>
          placeStorylines eventTypes levels expandedEvents conns columns lanes byStoryline rest layouts
      | Some laneGeo \<Rightarrow>
          (case map_of byStoryline (id_storyline storyline) of
             None \<Rightarrow>
               placeStorylines eventTypes levels expandedEvents conns columns lanes byStoryline
                 rest layouts
           | Some storylineDayMap \<Rightarrow>
               placeStorylines eventTypes levels expandedEvents conns columns lanes byStoryline rest
                 (placeDays eventTypes levels expandedEvents conns columns storyline laneGeo
                    storylineDayMap layouts)))"

subsection \<open>The layout memo\<close>

text \<open>
  The inputs of the memo (events, storylines, event types, expansion set, connections,
  era order) and the values it computes before the router runs.
\<close>

record Inputs =
  events :: "StoryEvent list"
  storylines :: "Storyline list"
  eventTypes :: "EventType list"
  expandedEvents :: "jsstring set"
  eventConnections :: "EventConnection list"
  eraOrder :: "jsstring list"

definition sortedEvents :: "Inputs \<Rightarrow> StoryEvent list" where
  "sortedEvents inp = sortedEventsOf (events inp) (eraOrder inp)"

definition eventsByDay :: "Inputs \<Rightarrow> (jsstring \<times> StoryEvent list) list" where
  "eventsByDay inp = groupByDay (sortedEvents inp)"

definition sortedUniqueDays :: "Inputs \<Rightarrow> jsstring list" where
  "sortedUniqueDays inp = sortedUniqueDaysOf (eventsByDay inp) (eraOrder inp)"

definition eventIndentationLevels :: "Inputs \<Rightarrow> (jsstring \<rightharpoonup> nat)" where
  "eventIndentationLevels inp = eventIndentationLevelsOf (eventsByDay inp)"

definition dayColumnContentWidths :: "Inputs \<Rightarrow> (jsstring \<rightharpoonup> real)" where
  "dayColumnContentWidths inp =
     dayColumnContentWidthsOf (eventsByDay inp) (eventIndentationLevels inp)"

definition dayColumnGeometries :: "Inputs \<Rightarrow> (jsstring \<rightharpoonup> Column)" where
  "dayColumnGeometries inp =
     fst (columnLoop (dayColumnContentWidths inp) (sortedUniqueDays inp) PADDING_X Map.empty)"

definition canvasWidth :: "Inputs \<Rightarrow> real" where
  "canvasWidth inp =
     (if length (sortedUniqueDays inp) > 0
      then snd (columnLoop (dayColumnContentWidths inp) (sortedUniqueDays inp) PADDING_X Map.empty)
             - EVENT_GAP
      else 2 * PADDING_X)"

definition eventsByStorylineAndDay ::
  "Inputs \<Rightarrow> (jsstring \<times> (jsstring \<times> StoryEvent list) list) list" where
  "eventsByStorylineAndDay inp = eventsByStorylineAndDayOf (storylines inp) (sortedEvents inp)"

definition laneGeometries :: "Inputs \<Rightarrow> (jsstring \<rightharpoonup> Lane)" where
  "laneGeometries inp =
     fst (laneLoop (expandedEvents inp) (eventConnections inp) (eventsByStorylineAndDay inp)
            (storylines inp) 0 Map.empty)"

definition totalHeight :: "Inputs \<Rightarrow> real" where
  "totalHeight inp =
     (let currentY = snd (laneLoop (expandedEvents inp) (eventConnections inp)
                            (eventsByStorylineAndDay inp) (storylines inp) 0 Map.empty)
      in if currentY > 0 then currentY else MIN_LANE_HEIGHT)"

definition eventLayouts :: "Inputs \<Rightarrow> (jsstring \<rightharpoonup> Layout)" where
  "eventLayouts inp =
     placeStorylines (eventTypes inp) (eventIndentationLevels inp) (expandedEvents inp)
       (eventConnections inp) (dayColumnGeometries inp) (laneGeometries inp)
       (eventsByStorylineAndDay inp) (storylines inp) Map.empty"

section \<open>Connection router (TimelineView.tsx, lines 404-494)\<close>

text \<open>
  The per-event record of \<open>portUsage\<close>: a running count and a precomputed total for each
  side. The source reads and writes the fields by name (\<open>usage[port]\<close>,
  \<open>usage[`${port}Total`]\<close>); \<open>Side\<close> is that name.
\<close>

record PortUsage =
  top_used :: nat
  bottom_used :: nat
  left_used :: nat
  right_used :: nat
  topTotal :: nat
  bottomTotal :: nat
  leftTotal :: nat
  rightTotal :: nat

datatype Side = Top | Bottom | Left | Right

definition emptyUsage :: PortUsage where
  "emptyUsage = \<lparr>top_used = 0, bottom_used = 0, left_used = 0, right_used = 0,
                  topTotal = 0, bottomTotal = 0, leftTotal = 0, rightTotal = 0\<rparr>"

fun usedAt :: "Side \<Rightarrow> PortUsage \<Rightarrow> nat" where
  "usedAt Top u = top_used u"
| "usedAt Bottom u = bottom_used u"
| "usedAt Left u = left_used u"
| "usedAt Right u = right_used u"

fun totalAt :: "Side \<Rightarrow> PortUsage \<Rightarrow> nat" where
  "totalAt Top u = topTotal u"
| "totalAt Bottom u = bottomTotal u"
| "totalAt Left u = leftTotal u"
| "totalAt Right u = rightTotal u"

fun incUsed :: "Side \<Rightarrow> PortUsage \<Rightarrow> PortUsage" where
  "incUsed Top u = u\<lparr>top_used := top_used u + 1\<rparr>"
| "incUsed Bottom u = u\<lparr>bottom_used := bottom_used u + 1\<rparr>"
| "incUsed Left u = u\<lparr>left_used := left_used u + 1\<rparr>"
| "incUsed Right u = u\<lparr>right_used := right_used u + 1\<rparr>"

fun incTotal :: "Side \<Rightarrow> PortUsage \<Rightarrow> PortUsage" where
  "incTotal Top u = u\<lparr>topTotal := topTotal u + 1\<rparr>"
| "incTotal Bottom u = u\<lparr>bottomTotal := bottomTotal u + 1\<rparr>"
| "incTotal Left u = u\<lparr>leftTotal := leftTotal u + 1\<rparr>"
| "incTotal Right u = u\<lparr>rightTotal := rightTotal u + 1\<rparr>"

text \<open>\<open>portUsage.get(k)!\<close> where the entry is known to exist.\<close>

definition usageOf :: "(jsstring \<rightharpoonup> PortUsage) \<Rightarrow> jsstring \<Rightarrow> PortUsage" where
  "usageOf portUsage k = (case portUsage k of None \<Rightarrow> emptyUsage | Some u \<Rightarrow> u)"

text \<open>\<open>if (!portUsage.has(k)) portUsage.set(k, {0, \<dots>, 0})\<close>.\<close>

definition ensureUsage :: "(jsstring \<rightharpoonup> PortUsage) \<Rightarrow> jsstring \<Rightarrow> (jsstring \<rightharpoonup> PortUsage)" where
  "ensureUsage portUsage k = (if portUsage k = None then portUsage(k \<mapsto> emptyUsage) else portUsage)"

text \<open>
  An update of the usage object of event \<open>k\<close> through its reference. The objects live in
  the map, so two references to the same event see each other's updates. Updating an
  absent entry is a TypeError in the source: \<open>None\<close>.
\<close>

definition updUsage ::
  "(PortUsage \<Rightarrow> PortUsage) \<Rightarrow> jsstring \<Rightarrow> (jsstring \<rightharpoonup> PortUsage) \<Rightarrow> (jsstring \<rightharpoonup> PortUsage) option" where
  "updUsage f k portUsage =
     (case portUsage k of None \<Rightarrow> None | Some u \<Rightarrow> Some (portUsage(k \<mapsto> f u)))"

text \<open>The first pass (lines 407-438): one iteration.\<close>

definition countStep ::
  "(jsstring \<rightharpoonup> Layout) \<Rightarrow> (jsstring \<rightharpoonup> Column) \<Rightarrow> EventConnection
     \<Rightarrow> (jsstring \<rightharpoonup> PortUsage) \<Rightarrow> (jsstring \<rightharpoonup> PortUsage)" where
  "countStep layouts columns conn portUsage =
     (case layouts (fromEventId conn) of
        None \<Rightarrow> portUsage
      | Some from \<Rightarrow>
          (case layouts (toEventId conn) of
             None \<Rightarrow> portUsage
           | Some to \<Rightarrow>
               let fromId = id_event (event_layout from);
                   toId = id_event (event_layout to);
                   pu = ensureUsage (ensureUsage portUsage fromId) toId;
                   fromDayKey = getDayKey (date (event_layout from));
                   toDayKey = getDayKey (date (event_layout to));
                   bump = (\<lambda>fromSide toSide.
                      let pu1 = pu(fromId \<mapsto> incTotal fromSide (usageOf pu fromId))
                      in pu1(toId \<mapsto> incTotal toSide (usageOf pu1 toId)))
               in if fromDayKey = toDayKey then
                    (if y_layout from < y_layout to then bump Bottom Top else bump Top Bottom)
                  else
                    (case columns fromDayKey of
                       None \<Rightarrow> pu
                     | Some fromColumnGeo \<Rightarrow>
                         (case columns toDayKey of
                            None \<Rightarrow> pu
                          | Some toColumnGeo \<Rightarrow>
                              if x_column fromColumnGeo < x_column toColumnGeo
                              then bump Right Left else bump Left Right))))"

definition countPorts ::
  "(jsstring \<rightharpoonup> Layout) \<Rightarrow> (jsstring \<rightharpoonup> Column) \<Rightarrow> EventConnection list
     \<Rightarrow> (jsstring \<rightharpoonup> PortUsage)" where
  "countPorts layouts columns conns = foldl (\<lambda>pu conn. countStep layouts columns conn pu) Map.empty conns"

text \<open>
  The coordinates of a path are computed from the rectangles with \<open>+\<close>, \<open>-\<close>, \<open>*\<close> and \<open>/\<close>
  and are binary64 values.
\<close>

record Point =
  x_point :: jsnum
  y_point :: jsnum

text \<open>
  An entry of \<open>connectionPaths\<close>. The SVG path string \<open>M p0 C p1 p2 p3\<close> is kept as its
  four points; \<open>from\<close> and \<open>to\<close> are the resolved endpoints.
\<close>

record ConnectionPath =
  path :: "Point \<times> Point \<times> Point \<times> Point"
  from_point :: Point
  to_point :: Point

text \<open>
  \<open>usage[port] / (usage[`${port}Total`] + 1)\<close>. The counters are small integers, which
  are binary64 values.
\<close>

definition portFraction :: "Side \<Rightarrow> PortUsage \<Rightarrow> jsnum" where
  "portFraction port u = jsdivBy (Num (real (usedAt port u))) (real (totalAt port u) + 1)"

text \<open>\<open>base + extent * (usage[port] / (usage[`${port}Total`] + 1))\<close>.\<close>

definition portPosition :: "real \<Rightarrow> real \<Rightarrow> Side \<Rightarrow> PortUsage \<Rightarrow> jsnum" where
  "portPosition base extent port u = jsadd (Num base) (jsmul (Num extent) (portFraction port u))"

text \<open>
  The second pass (lines 440-494): one iteration on the state (\<open>portUsage\<close>,
  \<open>connectionPaths\<close>). \<open>None\<close> is a TypeError from \<open>portUsage.get(\<dots>)!\<close> on an absent
  entry.
\<close>

definition routeStep ::
  "(jsstring \<rightharpoonup> Layout) \<Rightarrow> (jsstring \<rightharpoonup> Column) \<Rightarrow> EventConnection
     \<Rightarrow> (jsstring \<rightharpoonup> PortUsage) \<times> (jsstring \<rightharpoonup> ConnectionPath)
     \<Rightarrow> ((jsstring \<rightharpoonup> PortUsage) \<times> (jsstring \<rightharpoonup> ConnectionPath)) option" where
  "routeStep layouts columns conn st =
     (case st of (portUsage, connectionPaths) \<Rightarrow>
      case layouts (fromEventId conn) of
        None \<Rightarrow> Some st
      | Some from \<Rightarrow>
          (case layouts (toEventId conn) of
             None \<Rightarrow> Some st
           | Some to \<Rightarrow>
               let fromId = id_event (event_layout from);
                   toId = id_event (event_layout to);
                   fromDayKey = getDayKey (date (event_layout from));
                   toDayKey = getDayKey (date (event_layout to))
               in if fromDayKey = toDayKey then
                    (let isFromOnTop = (y_layout from < y_layout to);
                         startPort = (if isFromOnTop then Bottom else Top);
                         endPort = (if isFromOnTop then Top else Bottom)
                     in case updUsage (incUsed startPort) fromId portUsage of
                          None \<Rightarrow> None
                        | Some pu1 \<Rightarrow>
                            (case updUsage (incUsed endPort) toId pu1 of
                               None \<Rightarrow> None
                             | Some pu2 \<Rightarrow>
                                 let startX = portPosition (x_layout from) (width_layout from)
                                                startPort (usageOf pu2 fromId);
                                     startY = (if isFromOnTop
                                               then jsadd (Num (y_layout from)) (Num (height_layout from))
                                               else Num (y_layout from));
                                     endX = portPosition (x_layout to) (width_layout to)
                                              endPort (usageOf pu2 toId);
                                     endY = (if isFromOnTop then Num (y_layout to)
                                             else jsadd (Num (y_layout to)) (Num (height_layout to)));
                                     verticalOffset = jsdivBy (jsabs (jssub endY startY)) 2;
                                     curveDirection = Num (if isFromOnTop then 1 else -1)
                                 in Some (pu2, connectionPaths(id_conn conn \<mapsto>
                                      \<lparr>path =
                                         (\<lparr>x_point = startX, y_point = startY\<rparr>,
                                          \<lparr>x_point = startX,
                                           y_point = jsadd startY (jsmul verticalOffset curveDirection)\<rparr>,
                                          \<lparr>x_point = endX,
                                           y_point = jssub endY (jsmul verticalOffset curveDirection)\<rparr>,
                                          \<lparr>x_point = endX, y_point = endY\<rparr>),
                                       from_point = \<lparr>x_point = startX, y_point = startY\<rparr>,
                                       to_point = \<lparr>x_point = endX, y_point = endY\<rparr>\<rparr>))))
                  else
                    (case columns fromDayKey of
                       None \<Rightarrow> Some st
                     | Some fromColumnGeo \<Rightarrow>
                         (case columns toDayKey of
                            None \<Rightarrow> Some st
                          | Some toColumnGeo \<Rightarrow>
                              let isForward = (x_column fromColumnGeo < x_column toColumnGeo);
                                  fromX = (if isForward
                                           then jsadd (Num (x_layout from)) (Num (width_layout from))
                                           else Num (x_layout from));
                                  fromPort = (if isForward then Right else Left)
                              in case updUsage (incUsed fromPort) fromId portUsage of
                                   None \<Rightarrow> None
                                 | Some pu1 \<Rightarrow>
                                     let fromY = portPosition (y_layout from) (height_layout from)
                                                   fromPort (usageOf pu1 fromId);
                                         toX = (if isForward then Num (x_layout to)
                                                else jsadd (Num (x_layout to)) (Num (width_layout to)));
                                         toPort = (if isForward then Left else Right)
                                     in case updUsage (incUsed toPort) toId pu1 of
                                          None \<Rightarrow> None
                                        | Some pu2 \<Rightarrow>
                                            let toY = portPosition (y_layout to) (height_layout to)
                                                        toPort (usageOf pu2 toId);
                                                controlPointOffset = jsmul (jssub toX fromX) (Num 0.5)
                                            in Some (pu2, connectionPaths(id_conn conn \<mapsto>
                                                 \<lparr>path =
                                                    (\<lparr>x_point = fromX, y_point = fromY\<rparr>,
                                                     \<lparr>x_point = jsadd fromX controlPointOffset,
                                                      y_point = fromY\<rparr>,
                                                     \<lparr>x_point = jssub toX controlPointOffset,
                                                      y_point = toY\<rparr>,
                                                     \<lparr>x_point = toX, y_point = toY\<rparr>),
                                                  from_point = \<lparr>x_point = fromX, y_point = fromY\<rparr>,
                                                  to_point = \<lparr>x_point = toX, y_point = toY\<rparr>\<rparr>))))))"

fun routeLoop ::
  "(jsstring \<rightharpoonup> Layout) \<Rightarrow> (jsstring \<rightharpoonup> Column) \<Rightarrow> EventConnection list
     \<Rightarrow> (jsstring \<rightharpoonup> PortUsage) \<times> (jsstring \<rightharpoonup> ConnectionPath)
     \<Rightarrow> ((jsstring \<rightharpoonup> PortUsage) \<times> (jsstring \<rightharpoonup> ConnectionPath)) option" where
  "routeLoop layouts columns [] st = Some st"
| "routeLoop layouts columns (conn # conns) st =
     (case routeStep layouts columns conn st of
        None \<Rightarrow> None
      | Some st' \<Rightarrow> routeLoop layouts columns conns st')"

text \<open>
  The router on a given layout: the first pass, then the second pass from the counted
  totals. \<open>None\<close> stands for an exception.
\<close>

definition routeConnections ::
  "(jsstring \<rightharpoonup> Layout) \<Rightarrow> (jsstring \<rightharpoonup> Column) \<Rightarrow> EventConnection list
     \<Rightarrow> (jsstring \<rightharpoonup> ConnectionPath) option" where
  "routeConnections layouts columns conns =
     map_option snd (routeLoop layouts columns conns (countPorts layouts columns conns, Map.empty))"

definition connectionPaths :: "Inputs \<Rightarrow> (jsstring \<rightharpoonup> ConnectionPath) option" where
  "connectionPaths inp =
     routeConnections (eventLayouts inp) (dayColumnGeometries inp) (eventConnections inp)"

section \<open>Drop-target resolver (TimelineView.tsx, lines 514-560)\<close>









section \<open>Vocabulary for the properties\<close>

text \<open>The number written \<open>v.f\<close> with digit strings \<open>v\<close> and \<open>f\<close>.\<close>

definition decimalValue :: "jsstring \<Rightarrow> jsstring \<Rightarrow> real" where
  "decimalValue v f = real (digitsVal v) + real (digitsVal f) / 10 ^ length f"

text \<open>
  A date string of custom era form: it is not empty, it is recognised neither as BC
  notation nor as a Gregorian date, \<open>eraOrder[i]\<close> is the first era name that is a
  prefix of the trimmed string, and what follows the era name is, after trimming, the
  digits \<open>v\<close>, optionally followed by a dot and the digits \<open>f\<close>.
\<close>

definition customEraForm :: "jsstring \<Rightarrow> jsstring list \<Rightarrow> nat \<Rightarrow> jsstring \<Rightarrow> jsstring \<Rightarrow> bool" where
  "customEraForm dateString eras i v f \<longleftrightarrow>
     dateString \<noteq> [] \<and> matchBC (trim dateString) = None \<and>
     matchGregorian (trim dateString) = None \<and>
     i < length eras \<and> startsWith (trim dateString) (eras ! i) \<and>
     (\<forall>j<i. \<not> startsWith (trim dateString) (eras ! j)) \<and>
     v \<noteq> [] \<and> (\<forall>c \<in> set v. isDigit c) \<and> (\<forall>c \<in> set f. isDigit c) \<and>
     (trim (drop (length (eras ! i)) (trim dateString)) = v @ [46] @ f \<or>
      f = [] \<and> trim (drop (length (eras ! i)) (trim dateString)) = v)"

text \<open>The era name of the scenario: U+4F20 U+8BF4 U+7EAA U+5143.\<close>

definition LEGEND_ERA :: jsstring where
  "LEGEND_ERA = [20256, 35828, 32426, 20803]"

text \<open>The string \<open>`${year}.${paddedFraction}`\<close> that the era branch parses, from \<open>valueStr\<close>.\<close>

definition paddedValue :: "jsstring \<Rightarrow> jsstring" where
  "paddedValue valueStr =
     hd (splitOn 46 valueStr) @ [46] @
     padEnd 10 48 (case tl (splitOn 46 valueStr) of [] \<Rightarrow> [] | f # _ \<Rightarrow> f)"

text \<open>
  A date string in BC notation with the whole number \<open>n\<close>: group 1 of the BC pattern is
  the non-empty digit string \<open>n\<close>.
\<close>

definition bcForm :: "jsstring \<Rightarrow> jsstring \<Rightarrow> bool" where
  "bcForm dateString n \<longleftrightarrow>
     dateString \<noteq> [] \<and> matchBC (trim dateString) = Some n \<and> n \<noteq> [] \<and> (\<forall>c \<in> set n. isDigit c)"

text \<open>
  A date string of Gregorian form with the numeric fields year, month, day, hour,
  minute, second, as \<open>normalizeDate\<close> reads them (a missing time is 00:00:00).
\<close>

definition gregorianForm :: "jsstring \<Rightarrow> int \<Rightarrow> int \<Rightarrow> int \<Rightarrow> int \<Rightarrow> int \<Rightarrow> int \<Rightarrow> bool" where
  "gregorianForm dateString y mo dd h mi s \<longleftrightarrow>
     dateString \<noteq> [] \<and>
     (case matchGregorian (trim dateString) of
        None \<Rightarrow> False
      | Some (ys, ms, ds, tm) \<Rightarrow>
          parseInt10 ys = Some y \<and> parseInt10 ms = Some mo \<and> parseInt10 ds = Some dd \<and>
          (case tm of
             None \<Rightarrow> h = 0 \<and> mi = 0 \<and> s = 0
           | Some (hs, mis, ss) \<Rightarrow>
               parseInt10 hs = Some h \<and> parseInt10 mis = Some mi \<and> parseInt10 ss = Some s))"

definition daysInMonth :: "int \<Rightarrow> int \<Rightarrow> int" where
  "daysInMonth y mo =
     (if mo = 2 then (if InLeapYear y then 29 else 28)
      else if mo = 4 \<or> mo = 6 \<or> mo = 9 \<or> mo = 11 then 30 else 31)"

text \<open>A calendar date and time of day in the years 100 to 9999.\<close>

definition validFields :: "int \<Rightarrow> int \<Rightarrow> int \<Rightarrow> int \<Rightarrow> int \<Rightarrow> int \<Rightarrow> bool" where
  "validFields y mo dd h mi s \<longleftrightarrow>
     100 \<le> y \<and> y \<le> 9999 \<and> 1 \<le> mo \<and> mo \<le> 12 \<and> 1 \<le> dd \<and> dd \<le> daysInMonth y mo \<and>
     0 \<le> h \<and> h < 24 \<and> 0 \<le> mi \<and> mi < 60 \<and> 0 \<le> s \<and> s < 60"

text \<open>Chronological (lexicographic) order of two such dates.\<close>

definition fieldsBefore ::
  "int \<Rightarrow> int \<Rightarrow> int \<Rightarrow> int \<Rightarrow> int \<Rightarrow> int \<Rightarrow> int \<Rightarrow> int \<Rightarrow> int \<Rightarrow> int \<Rightarrow> int \<Rightarrow> int \<Rightarrow> bool" where
  "fieldsBefore y mo dd h mi s y' mo' dd' h' mi' s' \<longleftrightarrow>
     y < y' \<or> (y = y' \<and> (mo < mo' \<or> (mo = mo' \<and> (dd < dd' \<or> (dd = dd' \<and>
       (h < h' \<or> (h = h' \<and> (mi < mi' \<or> (mi = mi' \<and> s < s')))))))))"

text \<open>The day number of a calendar date, counted from 1970-01-01.\<close>

definition dayNumber :: "int \<Rightarrow> int \<Rightarrow> int \<Rightarrow> int" where
  "dayNumber y mo dd = DayFromYear y + monthStart y (mo - 1) + dd - 1"

text \<open>
  The rectangles written by the placement loops, in the order in which they are
  written: \<open>placeStack\<close>, \<open>placeDays\<close> and \<open>placeStorylines\<close> are proved to store exactly
  these, each under the id of its event.
\<close>

fun stackSlots ::
  "EventType list \<Rightarrow> (jsstring \<rightharpoonup> nat) \<Rightarrow> jsstring set \<Rightarrow> EventConnection list
     \<Rightarrow> Storyline \<Rightarrow> real \<Rightarrow> StoryEvent list \<Rightarrow> real \<Rightarrow> Layout list" where
  "stackSlots T L ex cs sl bx [] y0 = []"
| "stackSlots T L ex cs sl bx (e # rest) y0 =
     (case find (\<lambda>et. Some (id_type et) = typeId e) T of
        None \<Rightarrow> stackSlots T L ex cs sl bx rest y0
      | Some et \<Rightarrow>
          \<lparr>x_layout = bx + real (indentationLevel L e) * INDENTATION_STEP, y_layout = y0,
           width_layout = EVENT_WIDTH, height_layout = eventHeight ex e,
           event_layout = e, storyline_layout = sl, eventType_layout = et\<rparr> #
          stackSlots T L ex cs sl bx rest
            (y0 + eventHeight ex e +
             (case rest of [] \<Rightarrow> SAME_DAY_VERTICAL_GAP | n # _ \<Rightarrow> gapAfter cs e n)))"

definition stackStart :: "jsstring set \<Rightarrow> EventConnection list \<Rightarrow> Lane \<Rightarrow> StoryEvent list \<Rightarrow> real" where
  "stackStart ex cs lane evs = y_lane lane + (height_lane lane - stackHeightOf ex cs evs) / 2"

definition daySlots ::
  "EventType list \<Rightarrow> (jsstring \<rightharpoonup> nat) \<Rightarrow> jsstring set \<Rightarrow> EventConnection list
     \<Rightarrow> (jsstring \<rightharpoonup> Column) \<Rightarrow> Storyline \<Rightarrow> Lane \<Rightarrow> (jsstring \<times> StoryEvent list) list
     \<Rightarrow> Layout list" where
  "daySlots T L ex cs cols sl lane dm =
     concat (map (\<lambda>(dk, evs).
                    case cols dk of
                      None \<Rightarrow> []
                    | Some col \<Rightarrow>
                        stackSlots T L ex cs sl (x_column col) evs (stackStart ex cs lane evs))
             dm)"

definition allSlots ::
  "EventType list \<Rightarrow> (jsstring \<rightharpoonup> nat) \<Rightarrow> jsstring set \<Rightarrow> EventConnection list
     \<Rightarrow> (jsstring \<rightharpoonup> Column) \<Rightarrow> (jsstring \<rightharpoonup> Lane)
     \<Rightarrow> (jsstring \<times> (jsstring \<times> StoryEvent list) list) list \<Rightarrow> Storyline list \<Rightarrow> Layout list" where
  "allSlots T L ex cs cols lanes by sls =
     concat (map (\<lambda>sl.
                    case lanes (id_storyline sl) of
                      None \<Rightarrow> []
                    | Some lane \<Rightarrow>
                        (case map_of by (id_storyline sl) of
                           None \<Rightarrow> []
                         | Some dm \<Rightarrow> daySlots T L ex cs cols sl lane dm))
             sls)"

definition putLayout :: "(jsstring \<rightharpoonup> Layout) \<Rightarrow> Layout \<Rightarrow> (jsstring \<rightharpoonup> Layout)" where
  "putLayout m l = m(id_event (event_layout l) \<mapsto> l)"

text \<open>Two rectangles overlap when their open interiors meet.\<close>

definition overlaps :: "Layout \<Rightarrow> Layout \<Rightarrow> bool" where
  "overlaps a b \<longleftrightarrow>
     x_layout a < x_layout b + width_layout b \<and> x_layout b < x_layout a + width_layout a \<and>
     y_layout a < y_layout b + height_layout b \<and> y_layout b < y_layout a + height_layout a"

text \<open>
  Invariants of the two running-offset loops. \<open>contentWidthOf\<close> is the width the column
  loop reads for a day key; the lane loop reads a height that depends on the storyline
  id only.
\<close>

definition contentWidthOf :: "(jsstring \<rightharpoonup> real) \<Rightarrow> jsstring \<Rightarrow> real" where
  "contentWidthOf widths dayKey =
     (case widths dayKey of None \<Rightarrow> EVENT_WIDTH | Some w \<Rightarrow> if w = 0 then EVENT_WIDTH else w)"

definition colsOK :: "(jsstring \<rightharpoonup> real) \<Rightarrow> real \<Rightarrow> (jsstring \<rightharpoonup> Column) \<Rightarrow> bool" where
  "colsOK widths x g \<longleftrightarrow>
     (\<forall>k c. g k = Some c \<longrightarrow>
        PADDING_X \<le> x_column c \<and> x_column c + width_column c + EVENT_GAP \<le> x \<and>
        width_column c = contentWidthOf widths k) \<and>
     (\<forall>k1 k2 c1 c2. k1 \<noteq> k2 \<longrightarrow> g k1 = Some c1 \<longrightarrow> g k2 = Some c2 \<longrightarrow>
        x_column c1 + width_column c1 + EVENT_GAP \<le> x_column c2 \<or>
        x_column c2 + width_column c2 + EVENT_GAP \<le> x_column c1)"

definition lanesOK ::
  "jsstring set \<Rightarrow> EventConnection list \<Rightarrow> (jsstring \<times> (jsstring \<times> StoryEvent list) list) list
     \<Rightarrow> real \<Rightarrow> (jsstring \<rightharpoonup> Lane) \<Rightarrow> bool" where
  "lanesOK ex cs by y g \<longleftrightarrow>
     (\<forall>sid lane. g sid = Some lane \<longrightarrow>
        0 \<le> y_lane lane \<and> y_lane lane + height_lane lane \<le> y \<and>
        height_lane lane = laneHeightOf ex cs by \<lparr>id_storyline = sid\<rparr>) \<and>
     (\<forall>s1 s2 l1 l2. s1 \<noteq> s2 \<longrightarrow> g s1 = Some l1 \<longrightarrow> g s2 = Some l2 \<longrightarrow>
        y_lane l1 + height_lane l1 \<le> y_lane l2 \<or> y_lane l2 + height_lane l2 \<le> y_lane l1)"

text \<open>
  The day stack of a storyline: the sorted complete events of that storyline whose
  day key is the given one, which is the list \<open>eventsByStorylineAndDay\<close> holds for them.
\<close>

definition dayStack :: "Inputs \<Rightarrow> jsstring \<Rightarrow> jsstring \<Rightarrow> StoryEvent list" where
  "dayStack inp sid dayKey =
     filter (\<lambda>e. getDayKey (date e) = dayKey)
       (filter (\<lambda>e. storylineId e = Some sid) (sortedEvents inp))"

text \<open>
  The day key of a rectangle's event, the lane of its storyline, and the two relations
  between a rectangle and a lane, and between two lanes, that the layout guarantees.
\<close>

definition dayKeyOf :: "Layout \<Rightarrow> jsstring" where
  "dayKeyOf l = getDayKey (date (event_layout l))"

definition laneOf :: "Inputs \<Rightarrow> Layout \<Rightarrow> Lane option" where
  "laneOf inp l =
     (case storylineId (event_layout l) of None \<Rightarrow> None | Some sid \<Rightarrow> laneGeometries inp sid)"

definition insideLane :: "Lane \<Rightarrow> Layout \<Rightarrow> bool" where
  "insideLane lane l \<longleftrightarrow>
     y_lane lane + LANE_VERTICAL_PADDING \<le> y_layout l \<and>
     y_layout l + height_layout l + LANE_VERTICAL_PADDING \<le> y_lane lane + height_lane lane"

definition lanesDisjoint :: "Lane \<Rightarrow> Lane \<Rightarrow> bool" where
  "lanesDisjoint la lb \<longleftrightarrow>
     y_lane la + height_lane la \<le> y_lane lb \<or> y_lane lb + height_lane lb \<le> y_lane la"

text \<open>The day stack a rectangle belongs to, and the vertical extent of that stack in a lane.\<close>

definition stackOf :: "Inputs \<Rightarrow> Layout \<Rightarrow> StoryEvent list" where
  "stackOf inp l =
     (case storylineId (event_layout l) of
        None \<Rightarrow> []
      | Some sid \<Rightarrow> dayStack inp sid (dayKeyOf l))"

definition stackTop :: "Inputs \<Rightarrow> Lane \<Rightarrow> Layout \<Rightarrow> real" where
  "stackTop inp lane l =
     stackStart (expandedEvents inp) (eventConnections inp) lane (stackOf inp l)"

definition stackBottom :: "Inputs \<Rightarrow> Lane \<Rightarrow> Layout \<Rightarrow> real" where
  "stackBottom inp lane l =
     stackTop inp lane l +
     stackHeightOf (expandedEvents inp) (eventConnections inp) (stackOf inp l)"

text \<open>
  The example the layout theorems are instantiated at: two events of storyline \<open>s1\<close> on
  one day, the second expanded, and one event of storyline \<open>s2\<close> on the next day.
\<close>

definition exampleTimeline :: Inputs where
  "exampleTimeline =
     \<lparr>events = [mkEvent ''e1'' ''2024-01-01'' ''s1'' ''t1'',
                mkEvent ''e2'' ''2024-01-01 08:00:00'' ''s1'' ''t1'',
                mkEvent ''e3'' ''2024-01-02'' ''s2'' ''t1''],
      storylines = [\<lparr>id_storyline = lit ''s1''\<rparr>, \<lparr>id_storyline = lit ''s2''\<rparr>],
      eventTypes = [\<lparr>id_type = lit ''t1''\<rparr>],
      expandedEvents = {lit ''e2''}, eventConnections = [], eraOrder = []\<rparr>"





text \<open>
  The events whose usage records a connection touches: the events of the rectangles of
  its two ends, when both ends have a rectangle.
\<close>

definition endpointIds :: "(jsstring \<rightharpoonup> Layout) \<Rightarrow> EventConnection \<Rightarrow> jsstring set" where
  "endpointIds layouts c =
     (case layouts (fromEventId c) of
        None \<Rightarrow> {}
      | Some f \<Rightarrow>
          (case layouts (toEventId c) of
             None \<Rightarrow> {}
           | Some t \<Rightarrow> {id_event (event_layout f), id_event (event_layout t)}))"

text \<open>
  No complete event has the id \<open>k\<close>: the event does not exist, or its storyline, type or
  date is missing.
\<close>

definition noCompleteEvent :: "Inputs \<Rightarrow> jsstring \<Rightarrow> bool" where
  "noCompleteEvent inp k \<longleftrightarrow> (\<forall>e \<in> set (events inp). id_event e = k \<longrightarrow> \<not> isComplete e)"

text \<open>The inputs with another connection list.\<close>

definition withConnections :: "Inputs \<Rightarrow> EventConnection list \<Rightarrow> Inputs" where
  "withConnections inp cs = inp\<lparr>eventConnections := cs\<rparr>"

section \<open>Properties of the binary64 rounding\<close>

lemma pow2_powr: "pow2 e = 2 powr (real_of_int e)"
proof (cases "0 \<le> e")
  case True
  then show ?thesis by (simp add: pow2_def powr_realpow[symmetric])
next
  case False
  then have "2 powr real_of_int e = 1 / 2 powr real_of_int (- e)"
    by (simp add: powr_minus divide_simps)
  also have "\<dots> = 1 / 2 ^ nat (- e)" using False by (simp add: powr_realpow[symmetric])
  finally show ?thesis using False by (simp add: pow2_def)
qed

lemma pow2_pos: "0 < pow2 e" by (simp add: pow2_powr)

lemma pow2_add: "pow2 (a + b) = pow2 a * pow2 b" by (simp add: pow2_powr powr_add)

lemma pow2_diff: "pow2 (a - b) = pow2 a / pow2 b" by (simp add: pow2_powr powr_diff)

lemma pow2_le_iff: "pow2 a \<le> pow2 b \<longleftrightarrow> a \<le> b" by (simp add: pow2_powr)

lemma pow2_less_iff: "pow2 a < pow2 b \<longleftrightarrow> a < b" by (simp add: pow2_powr)

lemma pow2_nat: "pow2 (int n) = 2 ^ n" by (simp add: pow2_def)

lemma pow2_0: "pow2 0 = 1" by (simp add: pow2_def)

lemma pow2_53: "pow2 53 = 2 ^ 53" by (simp add: pow2_def)

lemma pow2_1: "pow2 1 = 2" by (simp add: pow2_def)

lemma binade_bounds:
  assumes "x \<noteq> 0"
  shows "pow2 (binade x) \<le> \<bar>x\<bar>" and "\<bar>x\<bar> < pow2 (binade x + 1)"
proof -
  have "pow2 (binade x) \<le> \<bar>x\<bar> \<and> \<bar>x\<bar> < pow2 (binade x + 1)"
  proof (cases "1 \<le> \<bar>x\<bar>")
    case True
    define n where "n = \<lfloor>\<bar>x\<bar>\<rfloor>"
    have n: "1 \<le> n" "of_int n \<le> \<bar>x\<bar>" "\<bar>x\<bar> < of_int n + 1"
      using True unfolding n_def by linarith+
    have b: "binade x = bitlen n - 1" using True by (simp add: binade_def n_def)
    from bitlen_bounds[of n] n(1) have bb: "2 ^ nat (bitlen n - 1) \<le> n" "n < 2 ^ nat (bitlen n)"
      by auto
    have b1: "1 \<le> bitlen n" using n(1) by (auto simp: bitlen_alt_def)
    have "pow2 (bitlen n - 1) = 2 ^ nat (bitlen n - 1)" using b1 by (simp add: pow2_def)
    also have "\<dots> = of_int (2 ^ nat (bitlen n - 1))" by simp
    also have "\<dots> \<le> of_int n" using bb(1) by (simp only: of_int_le_iff)
    finally have l: "pow2 (binade x) \<le> \<bar>x\<bar>" using n(2) b by simp
    have "n + 1 \<le> 2 ^ nat (bitlen n)" using bb(2) by simp
    then have "of_int (n + 1) \<le> (of_int (2 ^ nat (bitlen n)) :: real)" by (simp only: of_int_le_iff)
    then have "\<bar>x\<bar> < 2 ^ nat (bitlen n)" using n(3) by simp
    also have "\<dots> = pow2 (bitlen n)" using b1 by (simp add: pow2_def)
    finally show ?thesis using l b by simp
  next
    case False
    define y where "y = 1 / \<bar>x\<bar>"
    define n where "n = \<lceil>y\<rceil> - 1"
    have x: "0 < \<bar>x\<bar>" "\<bar>x\<bar> < 1" using assms False by auto
    have y: "1 < y" using x by (simp add: y_def)
    have n: "1 \<le> n" "of_int n < y" "y \<le> of_int n + 1"
      using y unfolding n_def by linarith+
    have b: "binade x = - bitlen n" using False by (simp add: binade_def n_def y_def)
    from bitlen_bounds[of n] n(1) have bb: "2 ^ nat (bitlen n - 1) \<le> n" "n < 2 ^ nat (bitlen n)"
      by auto
    have b1: "1 \<le> bitlen n" using n(1) by (auto simp: bitlen_alt_def)
    have "n + 1 \<le> 2 ^ nat (bitlen n)" using bb(2) by simp
    then have "of_int (n + 1) \<le> (of_int (2 ^ nat (bitlen n)) :: real)" by (simp only: of_int_le_iff)
    then have "y \<le> 2 ^ nat (bitlen n)" using n(3) by simp
    then have "1 / 2 ^ nat (bitlen n) \<le> 1 / y" using y by (simp add: frac_le)
    then have "1 / 2 ^ nat (bitlen n) \<le> \<bar>x\<bar>" by (simp add: y_def)
    moreover have "pow2 (- bitlen n) = 1 / 2 ^ nat (bitlen n)" using b1 by (simp add: pow2_def)
    ultimately have l: "pow2 (binade x) \<le> \<bar>x\<bar>" using b by simp
    have "(of_int (2 ^ nat (bitlen n - 1)) :: real) \<le> of_int n" using bb(1) by (simp only: of_int_le_iff)
    then have "(2::real) ^ nat (bitlen n - 1) \<le> of_int n" by simp
    then have "2 ^ nat (bitlen n - 1) < y" using n(2) by linarith
    then have "1 / y < 1 / 2 ^ nat (bitlen n - 1)" by (simp add: frac_less2)
    then have "\<bar>x\<bar> < 1 / 2 ^ nat (bitlen n - 1)" by (simp add: y_def)
    moreover have "pow2 (- bitlen n + 1) = 1 / 2 ^ nat (bitlen n - 1)"
    proof (cases "bitlen n = 1")
      case True
      then show ?thesis by (simp add: pow2_def)
    next
      case False
      with b1 have "- bitlen n + 1 < 0" by simp
      then show ?thesis by (simp add: pow2_def)
    qed
    ultimately show ?thesis using l b by simp
  qed
  then show "pow2 (binade x) \<le> \<bar>x\<bar>" and "\<bar>x\<bar> < pow2 (binade x + 1)" by simp_all
qed

lemma binade_unique:
  assumes "pow2 k \<le> \<bar>x\<bar>" "\<bar>x\<bar> < pow2 (k + 1)"
  shows "binade x = k"
proof -
  have x: "x \<noteq> 0" using assms(1) pow2_pos[of k] by auto
  from binade_bounds[OF x] assms have "pow2 (binade x) < pow2 (k + 1)" "pow2 k < pow2 (binade x + 1)"
    by linarith+
  then show ?thesis by (simp add: pow2_less_iff)
qed


lemma roundTiesEven_int: "roundTiesEven (of_int n) = n"
  by (simp add: roundTiesEven_def)

lemma roundTiesEven_near: "\<bar>of_int (roundTiesEven x) - x\<bar> \<le> 1 / 2"
proof -
  have "of_int \<lfloor>x\<rfloor> \<le> x" "x < of_int \<lfloor>x\<rfloor> + 1" by linarith+
  then show ?thesis by (auto simp: roundTiesEven_def Let_def)
qed

lemma roundTiesEven_nearest:
  assumes "\<bar>of_int m - x\<bar> < 1 / 2"
  shows "roundTiesEven x = m"
proof -
  have f: "of_int \<lfloor>x\<rfloor> \<le> x" "x < of_int \<lfloor>x\<rfloor> + 1" by linarith+
  from assms have m: "of_int m - 1 / 2 < x" "x < of_int m + 1 / 2" by linarith+
  consider "\<lfloor>x\<rfloor> = m" | "\<lfloor>x\<rfloor> = m - 1"
  proof -
    have "of_int (m - 1) \<le> x" using m(1) by simp
    then have 1: "m - 1 \<le> \<lfloor>x\<rfloor>" by (simp only: le_floor_iff)
    have "x < of_int (m + 1)" using m(2) by simp
    then have 2: "\<lfloor>x\<rfloor> < m + 1" by (simp only: floor_less_iff)
    from 1 2 have "\<lfloor>x\<rfloor> = m \<or> \<lfloor>x\<rfloor> = m - 1" by linarith
    then show ?thesis using that by blast
  qed
  then show ?thesis
  proof cases
    case 1
    then have "x - of_int \<lfloor>x\<rfloor> < 1 / 2" using m(2) by simp
    then show ?thesis using 1 by (simp add: roundTiesEven_def Let_def)
  next
    case 2
    then have "1 / 2 < x - of_int \<lfloor>x\<rfloor>" using m(1) by simp
    then show ?thesis using 2 by (simp add: roundTiesEven_def Let_def)
  qed
qed

lemma roundTiesEven_mono:
  assumes "x \<le> y"
  shows "roundTiesEven x \<le> roundTiesEven y"
proof (cases "\<lfloor>x\<rfloor> = \<lfloor>y\<rfloor>")
  case True
  then show ?thesis using assms by (auto simp: roundTiesEven_def Let_def)
next
  case False
  with assms have "\<lfloor>x\<rfloor> < \<lfloor>y\<rfloor>" by (simp add: floor_mono le_neq_trans)
  moreover have "roundTiesEven x \<le> \<lfloor>x\<rfloor> + 1" by (simp add: roundTiesEven_def Let_def)
  moreover have "\<lfloor>y\<rfloor> \<le> roundTiesEven y" by (simp add: roundTiesEven_def Let_def)
  ultimately show ?thesis by linarith
qed

text \<open>The unit in the last place used for rounding \<open>x\<close>.\<close>

lemma toDouble_unfold:
  "x \<noteq> 0 \<Longrightarrow>
   toDouble x =
     (if 2 ^ 1024 \<le> \<bar>of_int (roundTiesEven (x / pow2 (max (binade x) (- 1022) - 52))) *
                        pow2 (max (binade x) (- 1022) - 52)\<bar>
      then (if x < 0 then NegInf else PosInf)
      else Num (of_int (roundTiesEven (x / pow2 (max (binade x) (- 1022) - 52))) *
                pow2 (max (binade x) (- 1022) - 52)))"
  by (simp add: toDouble_def Let_def)

lemma toDouble_exact:
  assumes x: "x = of_int m * pow2 e" and m: "\<bar>m\<bar> < 2 ^ 53" and e: "- 1074 \<le> e"
    and fin: "\<bar>x\<bar> < 2 ^ 1024"
  shows "toDouble x = Num x"
proof (cases "x = 0")
  case True
  then show ?thesis by (simp add: toDouble_def)
next
  case False
  define E where "E = max (binade x) (- 1022) - 52"
  have m0: "m \<noteq> 0" using False x by auto
  have "\<bar>x\<bar> = of_int \<bar>m\<bar> * pow2 e" using x pow2_pos[of e] by (simp add: abs_mult)
  moreover have "of_int \<bar>m\<bar> < (2 ^ 53 :: real)" using m by (metis of_int_less_iff of_int_numeral of_int_power)
  ultimately have "\<bar>x\<bar> < 2 ^ 53 * pow2 e" using pow2_pos[of e] by simp
  also have "\<dots> = pow2 (53 + e)" by (simp add: pow2_add pow2_53)
  finally have "pow2 (binade x) < pow2 (53 + e)" using binade_bounds(1)[OF False] by linarith
  then have "binade x < 53 + e" by (simp add: pow2_less_iff)
  then have Ee: "E \<le> e" using e by (simp add: E_def)
  have "x / pow2 E = of_int m * pow2 (e - E)" using x by (simp add: pow2_diff)
  also have "pow2 (e - E) = of_int (2 ^ nat (e - E))" using Ee by (simp add: pow2_def)
  finally have q: "x / pow2 E = of_int (m * 2 ^ nat (e - E))" by simp
  have r: "of_int (roundTiesEven (x / pow2 E)) * pow2 E = x"
    unfolding q roundTiesEven_int unfolding q[symmetric] using pow2_pos[of E] by simp
  show ?thesis
    using fin unfolding toDouble_unfold[OF False] E_def[symmetric] r by simp
qed

lemma toDouble_int:
  assumes "\<bar>n\<bar> < 2 ^ 53"
  shows "toDouble (of_int n) = Num (of_int n)"
proof (rule toDouble_exact[where m = n and e = 0])
  show "of_int n = of_int n * pow2 0" by (simp add: pow2_0)
  show "\<bar>n\<bar> < 2 ^ 53" by (rule assms)
  show "- 1074 \<le> (0::int)" by simp
  have "\<bar>real_of_int n\<bar> = of_int \<bar>n\<bar>" by simp
  also have "\<dots> < of_int (2 ^ 53)" using assms by (simp only: of_int_less_iff)
  also have "\<dots> < (2 ^ 1024 :: real)" by simp
  finally show "\<bar>real_of_int n\<bar> < 2 ^ 1024" .
qed

lemma ulp_quotient_bound:
  assumes "x \<noteq> 0"
  shows "\<bar>x / pow2 (max (binade x) (- 1022) - 52)\<bar> < 2 ^ 53"
proof -
  let ?E = "max (binade x) (- 1022) - 52"
  have "\<bar>x\<bar> < pow2 (binade x + 1)" by (rule binade_bounds(2)[OF assms])
  also have "\<dots> \<le> pow2 (?E + 53)" by (simp add: pow2_le_iff)
  also have "\<dots> = pow2 ?E * 2 ^ 53" by (simp only: pow2_add pow2_53)
  finally have "\<bar>x\<bar> / pow2 ?E < 2 ^ 53" using pow2_pos[of ?E] by (simp add: pos_divide_less_eq mult.commute)
  then show ?thesis using pow2_pos[of ?E] by (simp add: abs_divide)
qed

lemma toDouble_idem:
  assumes "toDouble x = Num r"
  shows "toDouble r = Num r"
proof (cases "x = 0")
  case True
  with assms show ?thesis by (simp add: toDouble_def)
next
  case False
  define E where "E = max (binade x) (- 1022) - 52"
  define M where "M = roundTiesEven (x / pow2 E)"
  from assms have r: "r = of_int M * pow2 E" and fin: "\<bar>r\<bar> < 2 ^ 1024"
    unfolding toDouble_unfold[OF False] E_def[symmetric] M_def[symmetric]
    by (auto split: if_splits)
  have E: "- 1074 \<le> E" by (simp add: E_def)
  have "\<bar>of_int M - x / pow2 E\<bar> \<le> 1 / 2" unfolding M_def by (rule roundTiesEven_near)
  moreover have "\<bar>x / pow2 E\<bar> < 2 ^ 53" unfolding E_def by (rule ulp_quotient_bound[OF False])
  ultimately have "\<bar>real_of_int M\<bar> < 2 ^ 53 + 1" by linarith
  then have "real_of_int \<bar>M\<bar> < real_of_int (2 ^ 53 + 1)" by simp
  then have "\<bar>M\<bar> < 2 ^ 53 + 1" by (simp only: of_int_less_iff)
  then consider "\<bar>M\<bar> < 2 ^ 53" | "M = 2 ^ 53" | "M = - (2 ^ 53)" by linarith
  then show ?thesis
  proof cases
    case 1
    show ?thesis by (rule toDouble_exact[OF r 1 E fin])
  next
    case 2
    have r2: "r = of_int (2 ^ 52) * pow2 (E + 1)" unfolding r 2 by (simp add: pow2_add pow2_1)
    show ?thesis by (rule toDouble_exact[OF r2 _ _ fin]) (use E in simp_all)
  next
    case 3
    have r3: "r = of_int (- (2 ^ 52)) * pow2 (E + 1)" unfolding r 3 by (simp add: pow2_add pow2_1)
    show ?thesis by (rule toDouble_exact[OF r3 _ _ fin]) (use E in simp_all)
  qed
qed

text \<open>Rounding a number whose binade and nearest multiple of the unit are known.\<close>

lemma toDouble_eval:
  assumes "pow2 k \<le> \<bar>x\<bar>" and "\<bar>x\<bar> < pow2 (k + 1)" and "- 1022 \<le> k" and "k < 1023"
    and "\<bar>of_int m - x / pow2 (k - 52)\<bar> < 1 / 2"
  shows "toDouble x = Num (of_int m * pow2 (k - 52))"
proof -
  have x0: "x \<noteq> 0" using assms(1) pow2_pos[of k] by auto
  have b: "binade x = k" by (rule binade_unique[OF assms(1,2)])
  have E: "max (binade x) (- 1022) - 52 = k - 52" using assms(3) b by simp
  have M: "roundTiesEven (x / pow2 (k - 52)) = m" by (rule roundTiesEven_nearest[OF assms(5)])
  have "\<bar>x / pow2 (k - 52)\<bar> < 2 ^ 53" using ulp_quotient_bound[OF x0] unfolding E .
  with assms(5) have "\<bar>real_of_int m\<bar> < 2 ^ 53 + 1" by linarith
  then have "real_of_int \<bar>m\<bar> < real_of_int (2 ^ 53 + 1)" by simp
  then have "\<bar>m\<bar> < 2 ^ 53 + 1" by (simp only: of_int_less_iff)
  then have "\<bar>m\<bar> \<le> 2 ^ 53" by simp
  then have "real_of_int \<bar>m\<bar> \<le> real_of_int (2 ^ 53)" by (simp only: of_int_le_iff)
  then have "\<bar>real_of_int m\<bar> \<le> 2 ^ 53" by simp
  then have "\<bar>of_int m * pow2 (k - 52)\<bar> \<le> 2 ^ 53 * pow2 (k - 52)"
    using pow2_pos[of "k - 52"] by (simp add: abs_mult)
  also have "\<dots> = pow2 (53 + (k - 52))" by (simp only: pow2_add pow2_53)
  also have "\<dots> = pow2 (k + 1)" by (simp add: add.commute)
  also have "\<dots> \<le> pow2 1023" using assms(4) by (simp add: pow2_le_iff)
  also have "\<dots> < 2 ^ 1024" by (simp add: pow2_def)
  finally have "\<not> 2 ^ 1024 \<le> \<bar>of_int m * pow2 (k - 52)\<bar>" by simp
  then show ?thesis unfolding toDouble_unfold[OF x0] E M by simp
qed

lemma toDouble_not_NaN: "toDouble x \<noteq> NaN"
  by (simp add: toDouble_def Let_def)

lemma orZero_toDouble: "orZero (toDouble x) = toDouble x"
  using toDouble_not_NaN[of x] by (cases "toDouble x") simp_all

text \<open>Adding zero to a rounded value gives the value back.\<close>

lemma jsadd_toDouble_zero: "jsadd (toDouble x) (Num 0) = toDouble x"
proof (cases "toDouble x")
  case (Num r)
  then show ?thesis using toDouble_idem[OF Num] by simp
qed (simp_all add: toDouble_not_NaN)

text \<open>Below \<open>2^1023\<close> in magnitude nothing overflows.\<close>

lemma toDouble_finite:
  assumes "\<bar>x\<bar> < 2 ^ 1023"
  shows "\<exists>r. toDouble x = Num r"
proof (cases "x = 0")
  case True
  then show ?thesis by (simp add: toDouble_def)
next
  case False
  define E where "E = max (binade x) (- 1022) - 52"
  define M where "M = roundTiesEven (x / pow2 E)"
  have p1023: "pow2 1023 = 2 ^ 1023" by (simp add: pow2_def)
  have "pow2 (binade x) < pow2 1023" using binade_bounds(1)[OF False] assms p1023 by linarith
  then have "binade x < 1023" by (simp add: pow2_less_iff)
  then have "E \<le> 970" by (simp add: E_def)
  then have "pow2 E \<le> pow2 970" by (simp add: pow2_le_iff)
  also have "\<dots> = 2 ^ 970" by (simp add: pow2_def)
  finally have u: "pow2 E \<le> 2 ^ 970" .
  have "\<bar>of_int M - x / pow2 E\<bar> \<le> 1 / 2" unfolding M_def by (rule roundTiesEven_near)
  then have "\<bar>of_int M - x / pow2 E\<bar> * pow2 E \<le> 1 / 2 * pow2 E"
    using pow2_pos[of E] by (simp add: mult_right_mono)
  moreover have "\<bar>of_int M - x / pow2 E\<bar> * pow2 E = \<bar>of_int M * pow2 E - x\<bar>"
  proof -
    have "\<bar>of_int M - x / pow2 E\<bar> * pow2 E = \<bar>(of_int M - x / pow2 E) * pow2 E\<bar>"
      using pow2_pos[of E] by (simp add: abs_mult)
    also have "(of_int M - x / pow2 E) * pow2 E = of_int M * pow2 E - x"
      using pow2_pos[of E] by (simp add: left_diff_distrib)
    finally show ?thesis .
  qed
  ultimately have "\<bar>of_int M * pow2 E - x\<bar> \<le> 1 / 2 * pow2 E" by simp
  also have "\<dots> \<le> pow2 E" using pow2_pos[of E] by simp
  also note u
  finally have "\<bar>of_int M * pow2 E - x\<bar> \<le> 2 ^ 970" .
  then have "\<bar>of_int M * pow2 E\<bar> < 2 ^ 1023 + 2 ^ 970" using assms by linarith
  also have "\<dots> < (2 ^ 1024 :: real)" by simp
  finally have "\<not> 2 ^ 1024 \<le> \<bar>of_int M * pow2 E\<bar>" by simp
  then show ?thesis
    unfolding toDouble_unfold[OF False] E_def[symmetric] M_def[symmetric] by simp
qed

section \<open>Properties of the highlighter\<close>

definition hop :: "EventConnection list \<Rightarrow> (jsstring \<times> jsstring) set" where
  "hop conns = {(a, b). b \<in> neighbours conns a \<and> b \<noteq> []}"

lemma bfs_reach:
  assumes "visited = componentEvents \<union> set queue"
    and "\<forall>a \<in> componentEvents. \<forall>b. (a, b) \<in> hop conns \<longrightarrow> b \<in> visited"
    and "\<forall>v \<in> visited. (h, v) \<in> (hop conns)\<^sup>*"
    and "h \<in> visited"
  shows "bfs conns queue visited componentEvents = {b. (h, b) \<in> (hop conns)\<^sup>*}"
  using assms
proof (induction conns queue visited componentEvents rule: bfs.induct)
  case (1 conns visited comp)
  have vc: "visited = comp" using 1(1) by simp
  have closed: "\<And>a b. a \<in> comp \<Longrightarrow> (a, b) \<in> hop conns \<Longrightarrow> b \<in> comp"
    using 1(2) vc by blast
  have "b \<in> comp" if "(h, b) \<in> (hop conns)\<^sup>*" for b
    using that
  proof (induction rule: rtrancl_induct)
    case base
    show ?case using 1(4) vc by simp
  next
    case (step y z)
    then show ?case using closed by blast
  qed
  moreover have "(h, b) \<in> (hop conns)\<^sup>*" if "b \<in> comp" for b
    using that 1(3) vc by blast
  ultimately have "comp = {b. (h, b) \<in> (hop conns)\<^sup>*}" by blast
  then show ?case by simp
next
  case (2 conns cur queue visited comp)
  obtain new where new: "visitNeighbors cur conns (queue, visited) = (queue @ new, visited \<union> set new)"
      "distinct new" "set new = {b \<in> neighbours conns cur. b \<noteq> [] \<and> b \<notin> visited}"
    using visitNeighbors_shape by blast
  have curv: "(h, cur) \<in> (hop conns)\<^sup>*" using 2 by simp
  have a1: "visited \<union> set new = insert cur comp \<union> set (queue @ new)"
    using 2(2) by auto
  have a2: "\<forall>a \<in> insert cur comp. \<forall>b. (a, b) \<in> hop conns \<longrightarrow> b \<in> visited \<union> set new"
    using 2(3) new(3) by (auto simp: hop_def)
  have a3: "\<forall>v \<in> visited \<union> set new. (h, v) \<in> (hop conns)\<^sup>*"
  proof
    fix v assume "v \<in> visited \<union> set new"
    then show "(h, v) \<in> (hop conns)\<^sup>*"
    proof
      assume "v \<in> visited" then show ?thesis using 2(4) by simp
    next
      assume "v \<in> set new"
      then have "(cur, v) \<in> hop conns" using new(3) by (simp add: hop_def)
      with curv show ?thesis by (rule rtrancl_into_rtrancl)
    qed
  qed
  have a4: "h \<in> visited \<union> set new" using 2(5) by simp
  have "bfs conns (cur # queue) visited comp = bfs conns (queue @ new) (visited \<union> set new) (insert cur comp)"
    using new(1) by simp
  also have "\<dots> = {b. (h, b) \<in> (hop conns)\<^sup>*}"
    using "2.IH"[OF new(1)[symmetric] a1 a2 a3 a4] .
  finally show ?case .
qed

lemma highlightedEvents_reach:
  "h \<noteq> [] \<Longrightarrow> highlightedEvents (Some h) conns = {b. (h, b) \<in> (hop conns)\<^sup>*}"
  unfolding highlightedEvents_def
  using bfs_reach[of "{h}" "{}" "[h]" conns h] by simp


lemma neighbours_sym: "b \<in> neighbours conns a \<longleftrightarrow> a \<in> neighbours conns b"
  by (auto simp: neighbours_def)

definition link :: "EventConnection list \<Rightarrow> (jsstring \<times> jsstring) set" where
  "link conns = {(a, b). b \<in> neighbours conns a \<and> a \<noteq> [] \<and> b \<noteq> []}"

lemma sym_link: "sym (link conns)"
  unfolding sym_def link_def using neighbours_sym by auto

lemma hop_star_link:
  assumes "(h, b) \<in> (hop conns)\<^sup>*" and "h \<noteq> []"
  shows "(h, b) \<in> (link conns)\<^sup>* \<and> b \<noteq> []"
  using assms(1)
proof (induction rule: rtrancl_induct)
  case base
  show ?case using assms(2) by simp
next
  case (step y z)
  then have "(y, z) \<in> link conns" by (simp add: hop_def link_def)
  with step show ?case by (auto simp: hop_def)
qed

lemma link_star_hop: "(h, b) \<in> (link conns)\<^sup>* \<Longrightarrow> (h, b) \<in> (hop conns)\<^sup>*"
proof (induction rule: rtrancl_induct)
  case base
  show ?case by simp
next
  case (step y z)
  then have "(y, z) \<in> hop conns" by (simp add: hop_def link_def)
  with step show ?case by auto
qed

lemma highlightedEvents_link:
  assumes "h \<noteq> []"
  shows "highlightedEvents (Some h) conns = {b. (h, b) \<in> (link conns)\<^sup>*}"
proof -
  have "(h, b) \<in> (hop conns)\<^sup>* \<longleftrightarrow> (h, b) \<in> (link conns)\<^sup>*" for b
    using hop_star_link[OF _ assms] link_star_hop by blast
  then show ?thesis by (simp add: highlightedEvents_reach[OF assms])
qed

lemma empty_id_not_highlighted: "[] \<notin> highlightedEvents hov conns"
proof (cases hov)
  case None
  then show ?thesis by (simp add: highlightedEvents_def)
next
  case (Some h)
  show ?thesis
  proof (cases "h = []")
    case True
    with Some show ?thesis by (simp add: highlightedEvents_def)
  next
    case False
    have "([] :: jsstring) \<notin> {b. (h, b) \<in> (hop conns)\<^sup>*}"
      using hop_star_link[OF _ False] by blast
    then show ?thesis unfolding Some highlightedEvents_reach[OF False] .
  qed
qed

lemma highlightedEvents_sym:
  "A \<in> highlightedEvents (Some B) conns \<longleftrightarrow> B \<in> highlightedEvents (Some A) conns"
proof (cases "A = [] \<or> B = []")
  case True
  have e: "highlightedEvents (Some []) conns = {}" by (simp add: highlightedEvents_def)
  from True show ?thesis
    using empty_id_not_highlighted[of "Some A" conns]
      empty_id_not_highlighted[of "Some B" conns] e by auto
next
  case False
  then have "A \<noteq> []" "B \<noteq> []" by auto
  moreover have s: "sym ((link conns)\<^sup>*)" by (rule sym_rtrancl[OF sym_link])
  have "(B, A) \<in> (link conns)\<^sup>* \<longleftrightarrow> (A, B) \<in> (link conns)\<^sup>*"
    using symD[OF s] by blast
  ultimately show ?thesis by (simp add: highlightedEvents_link)
qed

lemma isolated_component:
  assumes "A \<noteq> []" and "\<forall>c \<in> set conns. fromEventId c \<noteq> A \<and> toEventId c \<noteq> A"
  shows "highlightedEvents (Some A) conns = {A}"
proof -
  have "neighbours conns A = {}" using assms(2) by (auto simp: neighbours_def)
  then have none: "\<And>b. (A, b) \<notin> hop conns" by (simp add: hop_def)
  have "b = A" if "(A, b) \<in> (hop conns)\<^sup>*" for b
    using that none by (auto elim: converse_rtranclE)
  then have "{b. (A, b) \<in> (hop conns)\<^sup>*} = {A}" by blast
  then show ?thesis by (simp add: highlightedEvents_reach[OF assms(1)])
qed

text \<open>
  C6. Membership in the hovered component is symmetric: \<open>A\<close> is in the component computed
  when \<open>B\<close> is hovered if and only if \<open>B\<close> is in the component computed when \<open>A\<close> is
  hovered, for every connection list. Hovering an event (an active hover: the hovered id
  is a non-empty string) that no connection touches gives the component \<open>{A}\<close> and an
  empty highlighted-connection map.
\<close>

theorem hovered_component_symmetric_isolated:
  "(A \<in> highlightedEvents (Some B) conns \<longleftrightarrow> B \<in> highlightedEvents (Some A) conns) \<and>
   (A \<noteq> [] \<and> (\<forall>c \<in> set conns. fromEventId c \<noteq> A \<and> toEventId c \<noteq> A) \<longrightarrow>
      highlightedEvents (Some A) conns = {A} \<and>
      highlightedConnectionInfo (Some A) conns = Map.empty)"
proof (intro conjI impI)
  show "A \<in> highlightedEvents (Some B) conns \<longleftrightarrow> B \<in> highlightedEvents (Some A) conns"
    by (rule highlightedEvents_sym)
next
  assume h: "A \<noteq> [] \<and> (\<forall>c \<in> set conns. fromEventId c \<noteq> A \<and> toEventId c \<noteq> A)"
  then show comp: "highlightedEvents (Some A) conns = {A}"
    using isolated_component by blast
  have "componentConnections (Some A) conns = []"
    unfolding componentConnections_def comp using h by (auto simp: filter_empty_conv)
  then show "highlightedConnectionInfo (Some A) conns = Map.empty"
    using h by (simp add: highlightedConnectionInfo_def)
qed

theorem hovered_component_symmetric_isolated_witness:
  "highlightedEvents (Some (lit ''e1''))
      [\<lparr>id_conn = lit ''c1'', fromEventId = lit ''e2'', toEventId = lit ''e3''\<rparr>] = {lit ''e1''} \<and>
   highlightedConnectionInfo (Some (lit ''e1''))
      [\<lparr>id_conn = lit ''c1'', fromEventId = lit ''e2'', toEventId = lit ''e3''\<rparr>] = Map.empty"
  using hovered_component_symmetric_isolated
    [of "lit ''e1''" "lit ''e1''"
        "[\<lparr>id_conn = lit ''c1'', fromEventId = lit ''e2'', toEventId = lit ''e3''\<rparr>]"]
  by (simp add: lit_def)

subsection \<open>The greedy colouring\<close>

lemma nextFree_notin: "nextFree xs c \<notin> set xs"
  by (induction xs c rule: nextFree.induct) (subst nextFree.simps, auto)

lemma nextFree_below: "c \<le> j \<Longrightarrow> j < nextFree xs c \<Longrightarrow> j \<in> set xs"
proof (induction xs c rule: nextFree.induct)
  case (1 xs c)
  show ?case
  proof (cases "c \<in> set xs")
    case True
    then have nf: "nextFree xs c = nextFree xs (Suc c)" by (subst nextFree.simps) simp
    show ?thesis
    proof (cases "j = c")
      case True
      with \<open>c \<in> set xs\<close> show ?thesis by simp
    next
      case False
      with 1(2) have "Suc c \<le> j" by simp
      then show ?thesis using "1.IH"[OF True] 1(3) nf by simp
    qed
  next
    case False
    then have "nextFree xs c = c" by (subst nextFree.simps) simp
    with 1(2,3) show ?thesis by simp
  qed
qed

lemma nextFree_le_card: "nextFree xs 0 \<le> card (set xs)"
proof -
  have "{0..<nextFree xs 0} \<subseteq> set xs" using nextFree_below[of 0 _ xs] by auto
  then have "card {0..<nextFree xs 0} \<le> card (set xs)" by (intro card_mono) auto
  then show ?thesis by simp
qed

lemma set_setAdd: "set (setAdd k ks) = insert k (set ks)"
  by (auto simp: setAdd_def)

lemma length_HIGHLIGHT_COLORS: "length HIGHLIGHT_COLORS = 7"
  by (simp add: HIGHLIGHT_COLORS_def)

lemma distinct_HIGHLIGHT_COLORS: "distinct HIGHLIGHT_COLORS"
  by (simp add: HIGHLIGHT_COLORS_def lit_def)

lemma colorStep_shape:
  "\<exists>us'. colorStep c (hl, us) =
      (hl(id_conn c \<mapsto>
          (HIGHLIGHT_COLORS ! (nextFree (usedOf us (fromEventId c) @ usedOf us (toEventId c)) 0 mod 7),
           nextFree (usedOf us (fromEventId c) @ usedOf us (toEventId c)) 0 mod 7)), us') \<and>
     (\<forall>n. set (usedOf us' n) = set (usedOf us n) \<union>
        (if n = fromEventId c \<or> n = toEventId c
         then {nextFree (usedOf us (fromEventId c) @ usedOf us (toEventId c)) 0 mod 7} else {}))"
  by (auto simp: colorStep_def Let_def usedOf_def length_HIGHLIGHT_COLORS set_setAdd
           split: option.splits)

lemma colorInv_step:
  assumes inv: "colorInv ps (hl, us)"
    and fresh: "id_conn c \<notin> id_conn ` set ps"
    and deg: "card {e \<in> set ps. sharesEndpoint c e} \<le> 6"
  shows "colorInv (ps @ [c]) (colorStep c (hl, us))"
proof -
  let ?xs = "usedOf us (fromEventId c) @ usedOf us (toEventId c)"
  let ?m = "nextFree ?xs 0"
  let ?S = "{e \<in> set ps. sharesEndpoint c e}"
  from inv have B: "\<And>e. e \<in> set ps \<Longrightarrow> \<exists>k<7. hl (id_conn e) = Some (HIGHLIGHT_COLORS ! k, k) \<and>
             k \<in> set (usedOf us (fromEventId e)) \<and> k \<in> set (usedOf us (toEventId e))"
    and C: "\<And>n k. k \<in> set (usedOf us n) \<Longrightarrow>
             \<exists>e \<in> set ps. (fromEventId e = n \<or> toEventId e = n) \<and>
                 hl (id_conn e) = Some (HIGHLIGHT_COLORS ! k, k)"
    and D: "\<And>e e'. e \<in> set ps \<Longrightarrow> e' \<in> set ps \<Longrightarrow> e \<noteq> e' \<Longrightarrow> sharesEndpoint e e' \<Longrightarrow>
             colorIndexOf hl e \<noteq> colorIndexOf hl e'"
    unfolding colorInv_def by auto
  have sub: "Some ` set ?xs \<subseteq> colorIndexOf hl ` ?S"
  proof
    fix x assume "x \<in> Some ` set ?xs"
    then obtain k where x: "x = Some k" and k: "k \<in> set ?xs" by auto
    from k obtain n where n: "n = fromEventId c \<or> n = toEventId c" "k \<in> set (usedOf us n)"
      by auto
    from C[OF n(2)] obtain e where e: "e \<in> set ps" "fromEventId e = n \<or> toEventId e = n"
        "hl (id_conn e) = Some (HIGHLIGHT_COLORS ! k, k)" by blast
    have "sharesEndpoint c e" using n(1) e(2) by (auto simp: sharesEndpoint_def)
    moreover have "colorIndexOf hl e = Some k" using e(3) by (simp add: colorIndexOf_def)
    ultimately show "x \<in> colorIndexOf hl ` ?S" using e(1) x by force
  qed
  have "card (set ?xs) = card (Some ` set ?xs)" by (simp add: card_image)
  also have "\<dots> \<le> card (colorIndexOf hl ` ?S)" by (rule card_mono[OF _ sub]) simp
  also have "\<dots> \<le> card ?S" by (rule card_image_le) simp
  finally have "card (set ?xs) \<le> 6" using deg by simp
  then have m6: "?m \<le> 6" using nextFree_le_card[of ?xs] by simp
  then have mm: "?m mod 7 = ?m" by simp
  have mU: "?m \<notin> set ?xs" by (rule nextFree_notin)
  from colorStep_shape[of c hl us] obtain us' where
    st: "colorStep c (hl, us) = (hl(id_conn c \<mapsto> (HIGHLIGHT_COLORS ! ?m, ?m)), us')"
    and us': "\<And>n. set (usedOf us' n) = set (usedOf us n) \<union>
        (if n = fromEventId c \<or> n = toEventId c then {?m} else {})"
    unfolding mm by blast
  let ?hl = "hl(id_conn c \<mapsto> (HIGHLIGHT_COLORS ! ?m, ?m))"
  have old: "?hl (id_conn e) = hl (id_conn e)" if "e \<in> set ps" for e
  proof -
    have "id_conn e \<noteq> id_conn c" using that fresh by (metis imageI)
    then show ?thesis by simp
  qed
  have oldI: "colorIndexOf ?hl e = colorIndexOf hl e" if "e \<in> set ps" for e
    using old[OF that] by (simp add: colorIndexOf_def)
  have newI: "colorIndexOf ?hl c = Some ?m" by (simp add: colorIndexOf_def)
  have cross: "colorIndexOf hl e \<noteq> Some ?m" if e: "e \<in> set ps" and sh: "sharesEndpoint c e" for e
  proof -
    from B[OF e] obtain k where k: "hl (id_conn e) = Some (HIGHLIGHT_COLORS ! k, k)"
      "k \<in> set (usedOf us (fromEventId e))" "k \<in> set (usedOf us (toEventId e))" by blast
    have "k \<in> set ?xs" using sh k(2,3) by (auto simp: sharesEndpoint_def)
    then have "k \<noteq> ?m" using mU by auto
    then show ?thesis using k(1) by (simp add: colorIndexOf_def)
  qed
  have B': "\<exists>k<7. ?hl (id_conn e) = Some (HIGHLIGHT_COLORS ! k, k) \<and>
             k \<in> set (usedOf us' (fromEventId e)) \<and> k \<in> set (usedOf us' (toEventId e))"
    if "e \<in> set (ps @ [c])" for e
  proof (cases "e = c")
    case True
    have "?m < 7" using m6 by simp
    then show ?thesis unfolding True us' by (intro exI[of _ ?m]) simp
  next
    case False
    then have e: "e \<in> set ps" using that by simp
    from B[OF e] obtain k where "k < 7" "hl (id_conn e) = Some (HIGHLIGHT_COLORS ! k, k)"
      "k \<in> set (usedOf us (fromEventId e))" "k \<in> set (usedOf us (toEventId e))" by blast
    then show ?thesis unfolding us' old[OF e] by (intro exI[of _ k]) simp
  qed
  have C': "\<exists>e \<in> set (ps @ [c]). (fromEventId e = n \<or> toEventId e = n) \<and>
                 ?hl (id_conn e) = Some (HIGHLIGHT_COLORS ! k, k)"
    if "k \<in> set (usedOf us' n)" for n k
  proof (cases "k \<in> set (usedOf us n)")
    case True
    from C[OF True] obtain e where e: "e \<in> set ps" "fromEventId e = n \<or> toEventId e = n"
        "hl (id_conn e) = Some (HIGHLIGHT_COLORS ! k, k)" by blast
    then show ?thesis using old[OF e(1)] by (intro bexI[of _ e]) auto
  next
    case False
    with that us'[of n] have "k = ?m" "n = fromEventId c \<or> n = toEventId c"
      by (auto split: if_splits)
    then show ?thesis by (intro bexI[of _ c]) auto
  qed
  have D': "colorIndexOf ?hl e \<noteq> colorIndexOf ?hl e'"
    if h: "e \<in> set (ps @ [c])" "e' \<in> set (ps @ [c])" "e \<noteq> e'" "sharesEndpoint e e'" for e e'
  proof -
    have symsh: "sharesEndpoint e' e" using h(4) by (auto simp: sharesEndpoint_def)
    consider "e = c" "e' \<in> set ps" | "e' = c" "e \<in> set ps" | "e \<in> set ps" "e' \<in> set ps"
      using h(1,2,3) by auto
    then show ?thesis
    proof cases
      case 1
      then show ?thesis using cross[of e'] h(4) newI oldI[of e'] by simp
    next
      case 2
      then show ?thesis using cross[of e] symsh newI oldI[of e] by simp
    next
      case 3
      then show ?thesis using D[OF 3 h(3,4)] oldI by simp
    qed
  qed
  show ?thesis unfolding st colorInv_def using B' C' D' by (simp del: fun_upd_apply)
qed

lemma colorInv_fold:
  assumes "distinct (map id_conn ps)"
    and "\<forall>c \<in> set ps. card {d \<in> set ps. d \<noteq> c \<and> sharesEndpoint c d} \<le> 6"
  shows "colorInv ps (fold colorStep ps (Map.empty, Map.empty))"
  using assms
proof (induction ps rule: rev_induct)
  case Nil
  show ?case by (simp add: colorInv_def usedOf_def)
next
  case (snoc c ps)
  have d: "distinct (map id_conn ps)" and fresh: "id_conn c \<notin> id_conn ` set ps"
    using snoc.prems(1) by auto
  have cnotin: "c \<notin> set ps" using fresh by auto
  have deg_ps: "\<forall>c' \<in> set ps. card {d \<in> set ps. d \<noteq> c' \<and> sharesEndpoint c' d} \<le> 6"
  proof
    fix c' assume c': "c' \<in> set ps"
    have "{d \<in> set ps. d \<noteq> c' \<and> sharesEndpoint c' d}
            \<subseteq> {d \<in> set (ps @ [c]). d \<noteq> c' \<and> sharesEndpoint c' d}" by auto
    then have "card {d \<in> set ps. d \<noteq> c' \<and> sharesEndpoint c' d}
            \<le> card {d \<in> set (ps @ [c]). d \<noteq> c' \<and> sharesEndpoint c' d}"
      by (intro card_mono) auto
    also have "\<dots> \<le> 6" using snoc.prems(2) c' by simp
    finally show "card {d \<in> set ps. d \<noteq> c' \<and> sharesEndpoint c' d} \<le> 6" .
  qed
  have "{e \<in> set ps. sharesEndpoint c e} \<subseteq> {d \<in> set (ps @ [c]). d \<noteq> c \<and> sharesEndpoint c d}"
    using cnotin by auto
  then have "card {e \<in> set ps. sharesEndpoint c e}
            \<le> card {d \<in> set (ps @ [c]). d \<noteq> c \<and> sharesEndpoint c d}"
    by (intro card_mono) auto
  also have "\<dots> \<le> 6" using snoc.prems(2) by simp
  finally have deg_c: "card {e \<in> set ps. sharesEndpoint c e} \<le> 6" .
  obtain hl us where st: "fold colorStep ps (Map.empty, Map.empty) = (hl, us)"
    by (cases "fold colorStep ps (Map.empty, Map.empty)")
  have "colorInv ps (hl, us)" using snoc.IH[OF d deg_ps] st by simp
  from colorInv_step[OF this fresh deg_c] show ?case by (simp add: st)
qed

lemma nextFree_in: "c \<in> set xs \<Longrightarrow> nextFree xs c = nextFree xs (Suc c)"
  by (subst nextFree.simps) simp

lemma nextFree_out: "c \<notin> set xs \<Longrightarrow> nextFree xs c = c"
  by (subst nextFree.simps) simp

lemma colorStep_eval:
  "colorStep c (hl, us) =
     colorStep2 (id_conn c) (fromEventId c) (toEventId c)
       (usedOf us (fromEventId c)) (usedOf us (toEventId c)) hl us"
  by (auto simp: colorStep_def colorStep2_def colorStep3_def Let_def usedOf_def
        length_HIGHLIGHT_COLORS fun_eq_iff split: option.splits)

lemmas color_eval = colorIndexOf_def colorStep_eval colorStep2_def colorStep3_def usedOf_def
  setAdd_def nextFree_in nextFree_out

text \<open>
  C4 (as stated). Eight connections leave the hovered event \<open>a\<close>. All of them are in the
  highlighted component and share the endpoint \<open>a\<close>; the first and the eighth both get
  colour index 0, because the eighth free index 7 is reduced modulo the palette size.
\<close>

theorem greedy_colouring_star8_counterexample:
  "colorIndexOf (highlightedConnectionInfo (Some (lit ''a''))
     [mkConn ''c1'' ''a'' ''b1'', mkConn ''c2'' ''a'' ''b2'', mkConn ''c3'' ''a'' ''b3'',
      mkConn ''c4'' ''a'' ''b4'', mkConn ''c5'' ''a'' ''b5'', mkConn ''c6'' ''a'' ''b6'',
      mkConn ''c7'' ''a'' ''b7'', mkConn ''c8'' ''a'' ''b8'']) (mkConn ''c1'' ''a'' ''b1'') = Some 0 \<and>
   colorIndexOf (highlightedConnectionInfo (Some (lit ''a''))
     [mkConn ''c1'' ''a'' ''b1'', mkConn ''c2'' ''a'' ''b2'', mkConn ''c3'' ''a'' ''b3'',
      mkConn ''c4'' ''a'' ''b4'', mkConn ''c5'' ''a'' ''b5'', mkConn ''c6'' ''a'' ''b6'',
      mkConn ''c7'' ''a'' ''b7'', mkConn ''c8'' ''a'' ''b8'']) (mkConn ''c8'' ''a'' ''b8'') = Some 0 \<and>
   componentConnections (Some (lit ''a''))
     [mkConn ''c1'' ''a'' ''b1'', mkConn ''c2'' ''a'' ''b2'', mkConn ''c3'' ''a'' ''b3'',
      mkConn ''c4'' ''a'' ''b4'', mkConn ''c5'' ''a'' ''b5'', mkConn ''c6'' ''a'' ''b6'',
      mkConn ''c7'' ''a'' ''b7'', mkConn ''c8'' ''a'' ''b8''] =
     [mkConn ''c1'' ''a'' ''b1'', mkConn ''c2'' ''a'' ''b2'', mkConn ''c3'' ''a'' ''b3'',
      mkConn ''c4'' ''a'' ''b4'', mkConn ''c5'' ''a'' ''b5'', mkConn ''c6'' ''a'' ''b6'',
      mkConn ''c7'' ''a'' ''b7'', mkConn ''c8'' ''a'' ''b8''] \<and>
   sharesEndpoint (mkConn ''c1'' ''a'' ''b1'') (mkConn ''c8'' ''a'' ''b8'') \<and>
   mkConn ''c1'' ''a'' ''b1'' \<noteq> mkConn ''c8'' ''a'' ''b8''"
proof -
  let ?star = "[mkConn ''c1'' ''a'' ''b1'', mkConn ''c2'' ''a'' ''b2'', mkConn ''c3'' ''a'' ''b3'',
      mkConn ''c4'' ''a'' ''b4'', mkConn ''c5'' ''a'' ''b5'', mkConn ''c6'' ''a'' ''b6'',
      mkConn ''c7'' ''a'' ''b7'', mkConn ''c8'' ''a'' ''b8'']"
  have he: "highlightedEvents (Some (lit ''a'')) ?star =
      {lit ''a'', lit ''b1'', lit ''b2'', lit ''b3'', lit ''b4'', lit ''b5'', lit ''b6'',
       lit ''b7'', lit ''b8''}"
    by (simp add: highlightedEvents_def mkConn_def lit_def insert_commute)
  have cc: "componentConnections (Some (lit ''a'')) ?star = ?star"
    unfolding componentConnections_def he by (simp add: mkConn_def)
  have na: "lit ''a'' \<noteq> []" by (simp add: lit_def)
  have info: "highlightedConnectionInfo (Some (lit ''a'')) ?star =
      fst (fold colorStep ?star (Map.empty, Map.empty))"
    unfolding highlightedConnectionInfo_def cc using na by simp
  have c18: "colorIndexOf (fst (fold colorStep ?star (Map.empty, Map.empty))) (mkConn ''c1'' ''a'' ''b1'') = Some 0
     \<and> colorIndexOf (fst (fold colorStep ?star (Map.empty, Map.empty))) (mkConn ''c8'' ''a'' ''b8'') = Some 0"
    by (simp add: color_eval mkConn_def lit_def)
  have sh: "sharesEndpoint (mkConn ''c1'' ''a'' ''b1'') (mkConn ''c8'' ''a'' ''b8'')"
    by (simp add: sharesEndpoint_def mkConn_def)
  have ne: "mkConn ''c1'' ''a'' ''b1'' \<noteq> mkConn ''c8'' ''a'' ''b8''"
    by (simp add: mkConn_def lit_def)
  show ?thesis unfolding info using c18 cc sh ne by blast
qed

text \<open>
  C4 (amended). When a hover is active, connection ids are pairwise distinct and every
  connection of the highlighted component shares an endpoint with at most six other
  connections of the component, every component connection gets an entry
  \<open>(HIGHLIGHT_COLORS[i], i)\<close> with \<open>i < 7\<close>, and two distinct component connections that
  share an endpoint get different indices and different colours.
\<close>

theorem greedy_colouring_proper:
  assumes "h \<noteq> []"
    and "distinct (map id_conn conns)"
    and "\<forall>c \<in> set (componentConnections (Some h) conns).
           length (filter (\<lambda>d. d \<noteq> c \<and> sharesEndpoint c d)
                     (componentConnections (Some h) conns)) \<le> 6"
  shows "\<forall>c \<in> set (componentConnections (Some h) conns).
         \<forall>d \<in> set (componentConnections (Some h) conns).
           (\<exists>i<7. highlightedConnectionInfo (Some h) conns (id_conn c) = Some (HIGHLIGHT_COLORS ! i, i)) \<and>
           (c \<noteq> d \<and> sharesEndpoint c d \<longrightarrow>
              colorIndexOf (highlightedConnectionInfo (Some h) conns) c \<noteq>
              colorIndexOf (highlightedConnectionInfo (Some h) conns) d \<and>
              map_option fst (highlightedConnectionInfo (Some h) conns (id_conn c)) \<noteq>
              map_option fst (highlightedConnectionInfo (Some h) conns (id_conn d)))"
proof (intro ballI)
  let ?cc = "componentConnections (Some h) conns"
  let ?info = "highlightedConnectionInfo (Some h) conns"
  fix c d assume c: "c \<in> set ?cc" and d: "d \<in> set ?cc"
  have info: "?info = fst (fold colorStep ?cc (Map.empty, Map.empty))"
    using assms(1) by (simp add: highlightedConnectionInfo_def)
  have dist: "distinct (map id_conn ?cc)"
    unfolding componentConnections_def using assms(2) by (rule distinct_map_filter)
  have deg: "\<forall>c \<in> set ?cc. card {d \<in> set ?cc. d \<noteq> c \<and> sharesEndpoint c d} \<le> 6"
  proof
    fix c assume "c \<in> set ?cc"
    have "card {d \<in> set ?cc. d \<noteq> c \<and> sharesEndpoint c d}
            = card (set (filter (\<lambda>d. d \<noteq> c \<and> sharesEndpoint c d) ?cc))" by simp
    also have "\<dots> \<le> length (filter (\<lambda>d. d \<noteq> c \<and> sharesEndpoint c d) ?cc)"
      by (rule card_length)
    also have "\<dots> \<le> 6" using assms(3) \<open>c \<in> set ?cc\<close> by blast
    finally show "card {d \<in> set ?cc. d \<noteq> c \<and> sharesEndpoint c d} \<le> 6" .
  qed
  obtain hl us where st: "fold colorStep ?cc (Map.empty, Map.empty) = (hl, us)"
    by (cases "fold colorStep ?cc (Map.empty, Map.empty)")
  have inv: "colorInv ?cc (hl, us)" using colorInv_fold[OF dist deg] st by simp
  have hl: "?info = hl" using info st by simp
  from inv c obtain i where i: "i < 7" "hl (id_conn c) = Some (HIGHLIGHT_COLORS ! i, i)"
    unfolding colorInv_def by auto
  from inv d obtain j where j: "j < 7" "hl (id_conn d) = Some (HIGHLIGHT_COLORS ! j, j)"
    unfolding colorInv_def by auto
  have part1: "\<exists>i<7. ?info (id_conn c) = Some (HIGHLIGHT_COLORS ! i, i)"
    unfolding hl using i by blast
  have part2: "colorIndexOf ?info c \<noteq> colorIndexOf ?info d \<and>
      map_option fst (?info (id_conn c)) \<noteq> map_option fst (?info (id_conn d))"
    if cd: "c \<noteq> d \<and> sharesEndpoint c d"
  proof -
    from inv c d cd have ne: "colorIndexOf hl c \<noteq> colorIndexOf hl d"
      unfolding colorInv_def by auto
    then have "i \<noteq> j" using i(2) j(2) by (auto simp: colorIndexOf_def)
    then have "HIGHLIGHT_COLORS ! i \<noteq> HIGHLIGHT_COLORS ! j"
      using i(1) j(1) distinct_HIGHLIGHT_COLORS
      by (simp add: nth_eq_iff_index_eq length_HIGHLIGHT_COLORS)
    then show ?thesis unfolding hl using ne i(2) j(2) by simp
  qed
  show "(\<exists>i<7. ?info (id_conn c) = Some (HIGHLIGHT_COLORS ! i, i)) \<and>
           (c \<noteq> d \<and> sharesEndpoint c d \<longrightarrow>
              colorIndexOf ?info c \<noteq> colorIndexOf ?info d \<and>
              map_option fst (?info (id_conn c)) \<noteq> map_option fst (?info (id_conn d)))"
    using part1 part2 by blast
qed

theorem greedy_colouring_proper_witness:
  "colorIndexOf (highlightedConnectionInfo (Some (lit ''a''))
      [mkConn ''c1'' ''a'' ''b'', mkConn ''c2'' ''b'' ''c'']) (mkConn ''c1'' ''a'' ''b'')
   \<noteq> colorIndexOf (highlightedConnectionInfo (Some (lit ''a''))
      [mkConn ''c1'' ''a'' ''b'', mkConn ''c2'' ''b'' ''c'']) (mkConn ''c2'' ''b'' ''c'')"
proof -
  let ?cs = "[mkConn ''c1'' ''a'' ''b'', mkConn ''c2'' ''b'' ''c'']"
  have he: "highlightedEvents (Some (lit ''a'')) ?cs = {lit ''a'', lit ''b'', lit ''c''}"
    by (simp add: highlightedEvents_def mkConn_def lit_def insert_commute)
  have cc: "componentConnections (Some (lit ''a'')) ?cs = ?cs"
    unfolding componentConnections_def he by (simp add: mkConn_def)
  have h1: "lit ''a'' \<noteq> []" by (simp add: lit_def)
  have h2: "distinct (map id_conn ?cs)" by (simp add: mkConn_def lit_def)
  have h3: "\<forall>c \<in> set (componentConnections (Some (lit ''a'')) ?cs).
           length (filter (\<lambda>d. d \<noteq> c \<and> sharesEndpoint c d)
                     (componentConnections (Some (lit ''a'')) ?cs)) \<le> 6"
    unfolding cc by simp
  have "mkConn ''c1'' ''a'' ''b'' \<noteq> mkConn ''c2'' ''b'' ''c'' \<and>
        sharesEndpoint (mkConn ''c1'' ''a'' ''b'') (mkConn ''c2'' ''b'' ''c'')"
    by (simp add: mkConn_def lit_def sharesEndpoint_def)
  then show ?thesis
    using greedy_colouring_proper[OF h1 h2 h3] unfolding cc by simp
qed

section \<open>Properties of the date normalizer\<close>

subsection \<open>Digits, trimming and splitting\<close>

lemma digit_not_space: "isDigit c \<Longrightarrow> \<not> isWhiteSpace c"
  by (auto simp: isDigit_def isWhiteSpace_def)

lemma digitsVal_snoc: "digitsVal (ds @ [c]) = 10 * digitsVal ds + (c - 48)"
  by (simp add: digitsVal_def)

lemma digitsVal_Nil: "digitsVal [] = 0"
  by (simp add: digitsVal_def)

lemma digitsVal_bound: "\<forall>c \<in> set ds. isDigit c \<Longrightarrow> digitsVal ds < 10 ^ length ds"
proof (induction ds rule: rev_induct)
  case Nil
  show ?case by (simp add: digitsVal_Nil)
next
  case (snoc c ds)
  then have "digitsVal ds < 10 ^ length ds" and "c - 48 \<le> 9"
    by (auto simp: isDigit_def)
  then show ?case by (simp add: digitsVal_snoc)
qed

lemma takeWhile_digits:
  "\<forall>c \<in> set ds. isDigit c \<Longrightarrow> (r = [] \<or> \<not> isDigit (hd r)) \<Longrightarrow> takeWhile isDigit (ds @ r) = ds"
  by (cases r) (auto simp: takeWhile_append2)

lemma dropWhile_digits:
  "\<forall>c \<in> set ds. isDigit c \<Longrightarrow> (r = [] \<or> \<not> isDigit (hd r)) \<Longrightarrow> dropWhile isDigit (ds @ r) = r"
  by (cases r) (auto simp: dropWhile_append2)

lemma trim_id:
  assumes "s \<noteq> []" and "\<not> isWhiteSpace (hd s)" and "\<not> isWhiteSpace (last s)"
  shows "trim s = s"
proof -
  have 1: "dropWhile isWhiteSpace s = s" using assms(1,2) by (cases s) auto
  obtain a r where ar: "rev s = a # r" using assms(1) by (cases "rev s") auto
  then have "a = last s" using assms(1) by (metis hd_rev list.sel(1))
  then have "dropWhile isWhiteSpace (a # r) = a # r" using assms(3) by simp
  then have 2: "dropWhile isWhiteSpace (rev s) = rev s" unfolding ar .
  show ?thesis by (simp add: trim_def 1 2)
qed

lemma trim_Nil: "trim [] = []"
  by (simp add: trim_def)

lemma splitOn_not_Nil: "splitOn sep s \<noteq> []"
  by (induction s) (auto split: list.splits)

lemma splitOn_no_sep: "sep \<notin> set a \<Longrightarrow> splitOn sep a = [a]"
  by (induction a) auto

lemma splitOn_first: "sep \<notin> set a \<Longrightarrow> splitOn sep (a @ sep # b) = a # splitOn sep b"
  by (induction a) (auto simp: splitOn_not_Nil split: list.splits)

lemma dot_not_digit: "\<forall>c \<in> set ds. isDigit c \<Longrightarrow> 46 \<notin> set ds"
  by (auto simp: isDigit_def)

lemma padEnd_digits: "\<forall>c \<in> set f. isDigit c \<Longrightarrow> \<forall>c \<in> set (padEnd 10 48 f). isDigit c"
  by (auto simp: padEnd_def isDigit_def)

subsection \<open>parseFloat on a plain decimal\<close>

lemma scale10_0: "scale10 m 0 = m"
  by (simp add: scale10_def)

lemma exponentPart_Nil: "exponentPart [] = 0"
  by (simp add: exponentPart_def)

text \<open>\<open>parseFloat\<close> on a string that starts with a digit.\<close>

lemma parseFloat_unsigned:
  assumes "isDigit c"
  shows "parseFloat (c # s) =
     (let r1 = dropWhile isDigit (c # s);
          fp = (case r1 of [] \<Rightarrow> [] | d # r \<Rightarrow> if d = 46 then takeWhile isDigit r else []);
          r2 = (case r1 of [] \<Rightarrow> [] | d # r \<Rightarrow> if d = 46 then dropWhile isDigit r else r1)
      in toDouble (scale10 (real (digitsVal (takeWhile isDigit (c # s))) +
                            real (digitsVal fp) / 10 ^ length fp) (exponentPart r2)))"
proof -
  have c1: "\<not> isWhiteSpace c" "c \<noteq> 45" "c \<noteq> 43" "c \<noteq> 73"
    using assms by (auto simp: isDigit_def isWhiteSpace_def)
  have s0: "dropWhile isWhiteSpace (c # s) = c # s" using c1(1) by simp
  have neg: "(case c # s of [] \<Rightarrow> False | d # _ \<Rightarrow> d = 45) = False" using c1(2) by simp
  have s1: "(case c # s of [] \<Rightarrow> [] | d # r \<Rightarrow> if d = 45 \<or> d = 43 then r else c # s) = c # s"
    using c1(2,3) by simp
  have inf: "(take 8 (c # s) = lit ''Infinity'') = False" using c1(4) by (simp add: lit_def)
  have ip: "(takeWhile isDigit (c # s) = [] \<and> P) = False" for P using assms by simp
  show ?thesis
    unfolding parseFloat_def parseUnsigned_def Let_def s0 neg s1 inf ip by simp
qed

lemma parseFloat_decimal:
  assumes v: "v \<noteq> []" "\<forall>c \<in> set v. isDigit c" and f: "\<forall>c \<in> set f. isDigit c"
  shows "parseFloat (v @ [46] @ f) = toDouble (decimalValue v f)"
proof -
  obtain c v' where vc: "v = c # v'" using v(1) by (cases v) auto
  have cd: "isDigit c" using v(2) vc by simp
  have nd: "\<not> isDigit 46" by (simp add: isDigit_def)
  have ip: "takeWhile isDigit (c # (v' @ [46] @ f)) = v"
    using takeWhile_digits[OF v(2), of "[46] @ f"] nd by (simp add: vc)
  have r1: "dropWhile isDigit (c # (v' @ [46] @ f)) = 46 # f"
    using dropWhile_digits[OF v(2), of "[46] @ f"] nd by (simp add: vc)
  have fp: "takeWhile isDigit f = f" using f by (simp add: takeWhile_eq_all_conv)
  have r2: "dropWhile isDigit f = []" using f by simp
  have "parseFloat (c # (v' @ [46] @ f)) = toDouble (decimalValue v f)"
    unfolding parseFloat_unsigned[OF cd] Let_def ip r1
    by (simp add: fp r2 exponentPart_Nil scale10_0 decimalValue_def)
  then show ?thesis by (simp add: vc)
qed

lemma parseFloat_digits:
  assumes v: "v \<noteq> []" "\<forall>c \<in> set v. isDigit c"
  shows "parseFloat v = toDouble (real (digitsVal v))"
proof -
  obtain c v' where vc: "v = c # v'" using v(1) by (cases v) auto
  have cd: "isDigit c" using v(2) vc by simp
  have ip: "takeWhile isDigit (c # v') = v" using v(2) by (simp add: takeWhile_eq_all_conv vc)
  have r1: "dropWhile isDigit (c # v') = []" using v(2) by (simp add: vc)
  have "parseFloat (c # v') = toDouble (real (digitsVal v))"
    unfolding parseFloat_unsigned[OF cd] Let_def ip r1
    by (simp add: exponentPart_Nil scale10_0 digitsVal_Nil)
  then show ?thesis by (simp add: vc)
qed

subsection \<open>The custom era branch\<close>

lemma eraLoop_first:
  "i < length eras \<Longrightarrow> startsWith t (eras ! i) \<Longrightarrow> \<forall>j<i. \<not> startsWith t (eras ! j) \<Longrightarrow>
   eraLoop t a eras k = eraValue t (eras ! i) (k + int i) a"
proof (induction eras arbitrary: i k)
  case Nil
  then show ?case by simp
next
  case (Cons e eras)
  show ?case
  proof (cases i)
    case 0
    with Cons.prems show ?thesis by simp
  next
    case (Suc i')
    have ne: "\<not> startsWith t e" using Cons.prems(3) Suc by auto
    have "\<forall>j<i'. \<not> startsWith t (eras ! j)" using Cons.prems(3) Suc by auto
    then have "eraLoop t a eras (k + 1) = eraValue t (eras ! i') (k + 1 + int i') a"
      using Cons.IH[of i' "k + 1"] Cons.prems(1,2) Suc by simp
    then show ?thesis using ne Suc by (simp add: add.assoc)
  qed
qed

lemma padEnd_Nil: "padEnd 10 48 [] = replicate 10 48"
  by (simp add: padEnd_def)

lemma decimalValue_zeros: "decimalValue v (replicate n 48) = real (digitsVal v)"
proof -
  have "digitsVal (replicate n 48) = 0"
  proof (induction n)
    case 0
    show ?case by (simp add: digitsVal_Nil)
  next
    case (Suc n)
    have "replicate (Suc n) (48::nat) = replicate n 48 @ [48]"
      by (simp add: replicate_append_same)
    then have "digitsVal (replicate (Suc n) 48) = 10 * digitsVal (replicate n 48) + (48 - 48)"
      by (simp only: digitsVal_snoc)
    then show ?case using Suc by simp
  qed
  then show ?thesis by (simp add: decimalValue_def)
qed

lemma eraValue_decimal:
  assumes v: "v \<noteq> []" "\<forall>c \<in> set v. isDigit c" and f: "\<forall>c \<in> set f. isDigit c"
    and vs: "trim (drop (length era) t) = v @ [46] @ f \<or>
             f = [] \<and> trim (drop (length era) t) = v"
  shows "eraValue t era i a =
           jsadd (toDouble (real_of_int (i - a) * ERA_MULTIPLIER))
                 (toDouble (decimalValue v (padEnd 10 48 f)))"
proof -
  have nv: "46 \<notin> set v" using dot_not_digit[OF v(2)] .
  have nf: "46 \<notin> set f" using dot_not_digit[OF f] .
  have pd: "\<forall>c \<in> set (padEnd 10 48 f). isDigit c" using padEnd_digits[OF f] .
  have parts: "hd (splitOn 46 (trim (drop (length era) t))) = v \<and>
      (case tl (splitOn 46 (trim (drop (length era) t))) of [] \<Rightarrow> [] | x # _ \<Rightarrow> x) = f"
    using vs
  proof
    assume "trim (drop (length era) t) = v @ [46] @ f"
    then show ?thesis using splitOn_first[OF nv, of f] splitOn_no_sep[OF nf] by simp
  next
    assume "f = [] \<and> trim (drop (length era) t) = v"
    then show ?thesis using splitOn_no_sep[OF nv] by simp
  qed
  show ?thesis
    unfolding eraValue_def Let_def
    using parts parseFloat_decimal[OF v pd] by (simp add: orZero_toDouble)
qed

lemma customEra_key:
  assumes "customEraForm d eras i v f"
  shows "normalizeDate d eras =
           jsadd (toDouble (real_of_int (int i - anchorIndexOf eras) * ERA_MULTIPLIER))
                 (toDouble (decimalValue v (padEnd 10 48 f)))"
proof -
  from assms have h: "d \<noteq> []" "matchBC (trim d) = None" "matchGregorian (trim d) = None"
      "i < length eras" "startsWith (trim d) (eras ! i)"
      "\<forall>j<i. \<not> startsWith (trim d) (eras ! j)"
      "v \<noteq> []" "\<forall>c \<in> set v. isDigit c" "\<forall>c \<in> set f. isDigit c"
      "trim (drop (length (eras ! i)) (trim d)) = v @ [46] @ f \<or>
       f = [] \<and> trim (drop (length (eras ! i)) (trim d)) = v"
    unfolding customEraForm_def by blast+
  have "normalizeDate d eras = eraLoop (trim d) (anchorIndexOf eras) eras 0"
    using h(1,2,3) by (simp add: normalizeDate_def)
  also have "\<dots> = eraValue (trim d) (eras ! i) (int i) (anchorIndexOf eras)"
    using eraLoop_first[OF h(4,5,6), of "anchorIndexOf eras" 0] by simp
  also have "\<dots> = jsadd (toDouble (real_of_int (int i - anchorIndexOf eras) * ERA_MULTIPLIER))
                 (toDouble (decimalValue v (padEnd 10 48 f)))"
    using eraValue_decimal[OF h(7,8,9,10)] .
  finally show ?thesis .
qed

subsection \<open>The Gregorian branch\<close>


lemma div_bounds:
  fixes a c :: int
  assumes "0 < c"
  shows "c * (a div c) \<le> a" and "a < c * (a div c) + c"
proof -
  have r: "0 \<le> a mod c" "a mod c < c" using assms by simp_all
  have e: "a = c * (a div c) + a mod c" by simp
  show "c * (a div c) \<le> a" using r(1) e by linarith
  show "a < c * (a div c) + c" using r(2) e by linarith
qed

lemma day_number_lower:
  fixes y q4 q100 q400 :: int
  assumes "y - 1969 < 4 * q4 + 4" "100 * q100 \<le> y - 1901" "y - 1601 < 400 * q400 + 400"
    and "99 \<le> y"
  shows "- 683371 \<le> 365 * (y - 1970) + q4 - q100 + q400"
proof -
  have a: "4 * q4 \<ge> y - 1972" using assms(1) by simp
  have c: "400 * q400 \<ge> y - 2000" using assms(3) by simp
  have "400 * (365 * (y - 1970) + q4 - q100 + q400) =
        146000 * (y - 1970) + 100 * (4 * q4) - 4 * (100 * q100) + 400 * q400" by simp
  also have "\<dots> \<ge> 146000 * (y - 1970) + 100 * (y - 1972) - 4 * (y - 1901) + (y - 2000)"
    using a assms(2) c by simp
  finally have "400 * (365 * (y - 1970) + q4 - q100 + q400) \<ge> 146097 * y - 287811596" by simp
  then have "400 * (365 * (y - 1970) + q4 - q100 + q400) \<ge> 146097 * 99 - 287811596"
    using assms(4) by simp
  then show ?thesis by simp
qed

lemma DayFromYear_lower:
  assumes "99 \<le> y"
  shows "- 683371 \<le> DayFromYear y"
  unfolding DayFromYear_def
  by (rule day_number_lower[OF div_bounds(2) div_bounds(1) div_bounds(2) assms]) simp_all

lemma monthStart_nonneg: "0 \<le> monthStart y mn"
  by (simp add: monthStart_def Let_def)


lemma matchGregorian_not_BC:
  assumes "matchGregorian t = Some g"
  shows "matchBC t = None"
proof -
  from assms obtain c r where t: "t = c # r" and c: "isDigit c"
    by (auto simp: matchGregorian_def matchGregorianDay_def split: list.splits if_splits option.splits)
  have "bcPrefix (c # r) = None"
    using c by (auto simp: bcPrefix_def isDigit_def split: list.splits)
  then show ?thesis by (simp add: matchBC_def t)
qed





lemma normalizeDate_gregorian:
  assumes "s \<noteq> []" "matchGregorian (trim s) = Some g"
  shows "normalizeDate s eras = gregorianValue g"
  using assms matchGregorian_not_BC[OF assms(2)] by (simp add: normalizeDate_def)



lemma toDouble_era_base: "toDouble (- 100000000000000) = Num (- 100000000000000)"
  using toDouble_int[of "- 100000000000000"] by simp







subsection \<open>Unparseable era values\<close>

lemma parseFloat_alt:
  "parseFloat str =
     (case dropWhile isWhiteSpace str of
        [] \<Rightarrow> parseUnsigned []
      | c # r \<Rightarrow> if c = 45 then jsneg (parseUnsigned r)
                 else if c = 43 then parseUnsigned r
                 else parseUnsigned (c # r))"
proof -
  define s where "s = dropWhile isWhiteSpace str"
  show ?thesis unfolding parseFloat_def Let_def s_def[symmetric] by (cases s) auto
qed

lemma eraValue_alt:
  "eraValue t era i a =
     jsadd (toDouble (real_of_int (i - a) * ERA_MULTIPLIER))
       (orZero (parseFloat (paddedValue (trim (drop (length era) t)))))"
  by (simp add: eraValue_def paddedValue_def Let_def)

lemma dropWhile_snoc_keep: "\<not> P a \<Longrightarrow> \<exists>z. dropWhile P (l @ [a]) = z @ [a]"
  by (induction l) auto

lemma trim_no_leading_space: "dropWhile isWhiteSpace (trim x) = trim x"
proof (cases "dropWhile isWhiteSpace x")
  case Nil
  show ?thesis unfolding trim_def Nil by simp
next
  case (Cons a y)
  have na: "\<not> isWhiteSpace a" using Cons by (metis hd_dropWhile list.distinct(1) list.sel(1))
  from dropWhile_snoc_keep[where P = isWhiteSpace and a = a and l = "rev y", OF na]
  obtain z where "dropWhile isWhiteSpace (rev y @ [a]) = z @ [a]" by blast
  then have "trim x = a # rev z" by (simp add: trim_def Cons)
  then show ?thesis using na by simp
qed

lemma hd_splitOn: "hd (splitOn sep s) = takeWhile (\<lambda>c. c \<noteq> sep) s"
  by (induction s) (auto simp: splitOn_not_Nil split: list.splits)

lemma splitOn_Cons_other:
  "c \<noteq> sep \<Longrightarrow> hd (splitOn sep (c # s)) = c # hd (splitOn sep s) \<and>
                 tl (splitOn sep (c # s)) = tl (splitOn sep s)"
  by (auto simp: splitOn_not_Nil split: list.splits)

lemma paddedValue_Cons_other: "c \<noteq> 46 \<Longrightarrow> paddedValue (c # s) = c # paddedValue s"
  using splitOn_Cons_other[of c 46 s] by (simp add: paddedValue_def)

lemma paddedValue_Nil: "paddedValue [] = 46 # replicate 10 48"
  by (simp add: paddedValue_def padEnd_def)

lemma paddedValue_dot: "paddedValue (46 # r) = 46 # padEnd 10 48 (takeWhile (\<lambda>c. c \<noteq> 46) r)"
proof -
  obtain p ps where sp: "splitOn 46 r = p # ps" using splitOn_not_Nil[of 46 r] by (cases "splitOn 46 r") auto
  have "p = takeWhile (\<lambda>c. c \<noteq> 46) r" using hd_splitOn[of 46 r] sp by simp
  then show ?thesis by (simp add: paddedValue_def sp)
qed

lemma parseUnsigned_dot_zeros: "parseUnsigned (46 # replicate 10 48) = Num 0"
  by (simp add: parseUnsigned_def lit_def isDigit_def digitsVal_def exponentPart_def scale10_def
        numeral_eq_Suc toDouble_def)

lemma parseUnsigned_nondigit:
  assumes "\<not> isDigit c" "c \<noteq> 46" "take 8 (c # r) \<noteq> lit ''Infinity''"
  shows "parseUnsigned (c # r) = NaN"
  using assms by (simp add: parseUnsigned_def Let_def)

lemma parseUnsigned_dot_nondigit:
  assumes "\<not> isDigit c"
  shows "parseUnsigned (46 # c # r) = NaN"
  using assms by (auto simp: parseUnsigned_def Let_def lit_def isDigit_def)

lemma infinity_no_dot: "46 \<notin> set (lit ''Infinity'')"
  by (simp add: lit_def)

lemma take8_paddedValue:
  assumes "take 8 (paddedValue u) = lit ''Infinity''"
  shows "take 8 u = lit ''Infinity''"
proof -
  let ?y = "takeWhile (\<lambda>c. c \<noteq> 46) u"
  obtain p where pv: "paddedValue u = ?y @ 46 # p"
    by (simp add: paddedValue_def hd_splitOn)
  have u: "u = ?y @ dropWhile (\<lambda>c. c \<noteq> 46) u" by simp
  show ?thesis
  proof (cases "8 \<le> length ?y")
    case True
    then have "take 8 (paddedValue u) = take 8 ?y" by (simp add: pv)
    moreover have tk: "take 8 (a @ b) = take 8 a" if "8 \<le> length a" for a b :: jsstring
      using that by simp
    have "take 8 u = take 8 ?y"
      using tk[OF True, of "dropWhile (\<lambda>c. c \<noteq> 46) u"]
      unfolding takeWhile_dropWhile_id .
    ultimately show ?thesis using assms by simp
  next
    case False
    then have "take 8 (paddedValue u) = ?y @ 46 # take (8 - length ?y - 1) p"
      by (simp add: pv take_Cons')
    then have "46 \<in> set (take 8 (paddedValue u))" by simp
    then show ?thesis using assms infinity_no_dot by simp
  qed
qed

lemma parseUnsigned_padded:
  assumes "parseUnsigned u = NaN"
  shows "orZero (parseUnsigned (paddedValue u)) = Num 0 \<and>
         orZero (jsneg (parseUnsigned (paddedValue u))) = Num 0"
proof (cases u)
  case Nil
  then show ?thesis by (simp add: paddedValue_Nil parseUnsigned_dot_zeros)
next
  case (Cons c r)
  have inf: "take 8 u \<noteq> lit ''Infinity''" using assms by (auto simp: parseUnsigned_def)
  note [simp] = toDouble_not_NaN
  show ?thesis
  proof (cases "c = 46")
    case True
    have tw: "takeWhile isDigit r = []"
      using assms inf unfolding Cons True
      by (simp add: parseUnsigned_def Let_def isDigit_def split: if_splits)
    show ?thesis
    proof (cases "takeWhile (\<lambda>c. c \<noteq> 46) r")
      case Nil
      then show ?thesis
        unfolding Cons True paddedValue_dot
        by (simp add: padEnd_def parseUnsigned_dot_zeros)
    next
      case (Cons c2 r2)
      then obtain r' where r: "r = c2 # r'" by (cases r) (auto split: if_splits)
      have nd: "\<not> isDigit c2" using tw r by (auto split: if_splits)
      have "padEnd 10 48 (c2 # r2) = c2 # (r2 @ replicate (10 - length (c2 # r2)) 48)"
        by (simp add: padEnd_def)
      then have "parseUnsigned (paddedValue u) = NaN"
        unfolding \<open>u = c # r\<close> True paddedValue_dot Cons
        using parseUnsigned_dot_nondigit[OF nd] by simp
      then show ?thesis by simp
    qed
  next
    case False
    have nd: "\<not> isDigit c"
      using assms inf unfolding Cons
      by (auto simp: parseUnsigned_def Let_def split: if_splits)
    have pv: "paddedValue u = c # paddedValue r" unfolding Cons by (rule paddedValue_Cons_other[OF False])
    have "take 8 (c # paddedValue r) \<noteq> lit ''Infinity''"
      using take8_paddedValue[of u] inf pv by auto
    then have "parseUnsigned (paddedValue u) = NaN"
      unfolding pv by (rule parseUnsigned_nondigit[OF nd False])
    then show ?thesis by simp
  qed
qed

lemma parseFloat_padded:
  assumes "dropWhile isWhiteSpace v = v" and "parseFloat v = NaN"
  shows "orZero (parseFloat (paddedValue v)) = Num 0"
proof (cases v)
  case Nil
  then show ?thesis
    by (simp add: paddedValue_Nil parseFloat_alt isWhiteSpace_def parseUnsigned_dot_zeros)
next
  case (Cons c r)
  have nw: "\<not> isWhiteSpace c" using assms(1) Cons by (metis hd_dropWhile list.distinct(1) list.sel(1))
  show ?thesis
  proof (cases "c = 45 \<or> c = 43")
    case True
    then have c46: "c \<noteq> 46" by auto
    have un: "parseUnsigned r = NaN"
      using assms(2) True nw unfolding Cons parseFloat_alt by (cases "parseUnsigned r") auto
    have pv: "paddedValue v = c # paddedValue r" unfolding Cons by (rule paddedValue_Cons_other[OF c46])
    show ?thesis
      unfolding pv parseFloat_alt using nw True parseUnsigned_padded[OF un] by auto
  next
    case False
    have un: "parseUnsigned v = NaN"
      using assms(2) False nw unfolding Cons parseFloat_alt by simp
    obtain c' r' where pv: "paddedValue v = c' # r'" "\<not> isWhiteSpace c'" "c' \<noteq> 45" "c' \<noteq> 43"
    proof (cases "c = 46")
      case True
      show ?thesis using that[of 46] unfolding Cons True paddedValue_dot
        by (simp add: isWhiteSpace_def)
    next
      case c46: False
      show ?thesis using that[of c "paddedValue r"] paddedValue_Cons_other[OF c46, of r] nw False
        unfolding Cons by simp
    qed
    have "parseFloat (paddedValue v) = parseUnsigned (paddedValue v)"
      unfolding pv(1) parseFloat_alt using pv(2,3,4) by simp
    then show ?thesis using parseUnsigned_padded[OF un] by simp
  qed
qed

lemma findIndex_bounds: "- 1 \<le> findIndex p xs \<and> findIndex p xs < int (length xs)"
  by (induction xs) (auto simp: Let_def)

lemma anchorIndexOf_bounds:
  "0 \<le> anchorIndexOf eras \<and> (eras \<noteq> [] \<longrightarrow> anchorIndexOf eras < int (length eras))"
  using findIndex_bounds[of "\<lambda>era. era = GREGORIAN_ANCHOR" eras]
  by (auto simp: anchorIndexOf_def Let_def)

text \<open>
  The base value of an era is an exact multiple of \<open>10^14\<close> as long as the product stays
  below \<open>2^53 * 2^14\<close>, and it is finite for every index of a JavaScript array.
\<close>

lemma era_base_exact:
  assumes "\<bar>k\<bar> \<le> 1475739"
  shows "toDouble (real_of_int k * 100000000000000) = Num (real_of_int k * 100000000000000)"
proof (rule toDouble_exact[where m = "k * 6103515625" and e = 14])
  show "real_of_int k * 100000000000000 = real_of_int (k * 6103515625) * pow2 14"
    by (simp add: pow2_def)
  have "\<bar>k * 6103515625\<bar> = \<bar>k\<bar> * 6103515625" by (simp add: abs_mult)
  also have "\<dots> \<le> 1475739 * 6103515625" using assms by simp
  finally show m: "\<bar>k * 6103515625\<bar> < 2 ^ 53" by simp
  show "- 1074 \<le> (14::int)" by simp
  have "\<bar>real_of_int k * 100000000000000\<bar> = real_of_int \<bar>k\<bar> * 100000000000000"
    by (simp add: abs_mult)
  also have "real_of_int \<bar>k\<bar> \<le> real_of_int 1475739" using assms by (simp only: of_int_le_iff)
  finally have "\<bar>real_of_int k * 100000000000000\<bar> \<le> 1475739 * 100000000000000" by simp
  also have "\<dots> < (2 ^ 1024 :: real)" by simp
  finally show "\<bar>real_of_int k * 100000000000000\<bar> < 2 ^ 1024" .
qed

lemma era_base_finite:
  assumes "\<bar>k\<bar> < 4294967296"
  shows "\<exists>r. toDouble (real_of_int k * 100000000000000) = Num r"
proof (rule toDouble_finite)
  have "\<bar>real_of_int k * 100000000000000\<bar> = real_of_int \<bar>k\<bar> * 100000000000000"
    by (simp add: abs_mult)
  also have "real_of_int \<bar>k\<bar> \<le> real_of_int 4294967296" using assms by simp
  finally have "\<bar>real_of_int k * 100000000000000\<bar> \<le> 4294967296 * 100000000000000" by simp
  also have "\<dots> < (2 ^ 1023 :: real)" by simp
  finally show "\<bar>real_of_int k * 100000000000000\<bar> < 2 ^ 1023" .
qed

text \<open>
  C9. When the date string reaches the era loop (it is not empty and is neither BC
  notation nor a Gregorian date), \<open>eraOrder[i]\<close> is the first era name that is a prefix
  of it, and \<open>parseFloat\<close> of what follows the era name is NaN, \<open>normalizeDate\<close> returns the
  base value of that era, the product \<open>(i - anchorIndex) * 10^14\<close> of the code, and not the
  sentinel Infinity: the product is finite for every era list a JavaScript array can
  hold (fewer than \<open>2^32\<close> names), and it is the exact number \<open>(i - anchorIndex) * 10^14\<close>
  for every era list of at most 1475740 names, where no rounding takes place.
\<close>

theorem unparseable_era_value_is_era_base:
  assumes "d \<noteq> []"
    and "matchBC (trim d) = None" and "matchGregorian (trim d) = None"
    and "i < length eras" and "startsWith (trim d) (eras ! i)"
    and "\<forall>j<i. \<not> startsWith (trim d) (eras ! j)"
    and "parseFloat (trim (drop (length (eras ! i)) (trim d))) = NaN"
  shows "normalizeDate d eras =
           jsmul (Num (real_of_int (int i - anchorIndexOf eras))) (Num ERA_MULTIPLIER) \<and>
         (length eras < 4294967296 \<longrightarrow>
            normalizeDate d eras \<noteq> PosInf \<and> normalizeDate d eras \<noteq> NegInf \<and>
            normalizeDate d eras \<noteq> NaN) \<and>
         (length eras \<le> 1475740 \<longrightarrow>
            normalizeDate d eras =
              Num (real_of_int (int i - anchorIndexOf eras) * 100000000000000) \<and>
            normalizeDate d eras \<noteq> PosInf)"
proof -
  let ?k = "int i - anchorIndexOf eras"
  have "normalizeDate d eras = eraLoop (trim d) (anchorIndexOf eras) eras 0"
    using assms(1,2,3) by (simp add: normalizeDate_def)
  also have "\<dots> = eraValue (trim d) (eras ! i) (int i) (anchorIndexOf eras)"
    using eraLoop_first[OF assms(4,5,6), of "anchorIndexOf eras" 0] by simp
  also have "\<dots> = toDouble (real_of_int ?k * ERA_MULTIPLIER)"
    unfolding eraValue_alt
    using parseFloat_padded[OF trim_no_leading_space assms(7)]
    by (simp add: jsadd_toDouble_zero)
  finally have key: "normalizeDate d eras = toDouble (real_of_int ?k * 100000000000000)"
    by (simp add: ERA_MULTIPLIER_def)
  have ne: "eras \<noteq> []" using assms(4) by auto
  have k: "\<bar>?k\<bar> < int (length eras)"
    using anchorIndexOf_bounds[of eras] ne assms(4) by auto
  have fin: "normalizeDate d eras \<noteq> PosInf \<and> normalizeDate d eras \<noteq> NegInf \<and>
             normalizeDate d eras \<noteq> NaN" if "length eras < 4294967296"
  proof -
    from k that have "\<bar>?k\<bar> < 4294967296" by simp
    from era_base_finite[OF this] show ?thesis unfolding key by auto
  qed
  have ex: "normalizeDate d eras = Num (real_of_int ?k * 100000000000000) \<and>
            normalizeDate d eras \<noteq> PosInf" if "length eras \<le> 1475740"
  proof -
    from k that have "\<bar>?k\<bar> \<le> 1475739" by simp
    from era_base_exact[OF this] show ?thesis unfolding key by simp
  qed
  show ?thesis using key fin ex by (simp add: ERA_MULTIPLIER_def)
qed

theorem unparseable_era_value_is_era_base_witness:
  "normalizeDate (LEGEND_ERA @ lit '' abc'') [LEGEND_ERA, GREGORIAN_ANCHOR] = Num (- 100000000000000)"
proof -
  let ?d = "LEGEND_ERA @ lit '' abc''"
  let ?eras = "[LEGEND_ERA, GREGORIAN_ANCHOR]"
  have a: "anchorIndexOf ?eras = 1"
    by (simp add: anchorIndexOf_def LEGEND_ERA_def GREGORIAN_ANCHOR_def)
  have t: "trim ?d = ?d"
    by (simp add: LEGEND_ERA_def lit_def trim_def isWhiteSpace_def)
  have h1: "?d \<noteq> []" by (simp add: lit_def)
  have h2: "matchBC (trim ?d) = None"
    unfolding t by (simp add: LEGEND_ERA_def lit_def matchBC_def bcPrefix_def)
  have h3: "matchGregorian (trim ?d) = None"
    unfolding t
    by (simp add: LEGEND_ERA_def lit_def matchGregorian_def matchGregorianDay_def isDigit_def)
  have h4: "0 < length ?eras" by simp
  have h5: "startsWith (trim ?d) (?eras ! 0)" unfolding t by (simp add: startsWith_def)
  have h6: "\<forall>j<0. \<not> startsWith (trim ?d) (?eras ! j)" by simp
  have h7: "parseFloat (trim (drop (length (?eras ! 0)) (trim ?d))) = NaN"
    unfolding t
    by (simp add: LEGEND_ERA_def lit_def trim_def isWhiteSpace_def parseFloat_def
          parseUnsigned_def isDigit_def Let_def)
  from unparseable_era_value_is_era_base[OF h1 h2 h3 h4 h5 h6 h7]
  have "length ?eras \<le> 1475740 \<longrightarrow>
        normalizeDate ?d ?eras = Num (real_of_int (int 0 - anchorIndexOf ?eras) * 100000000000000) \<and>
        normalizeDate ?d ?eras \<noteq> PosInf"
    by blast
  then show ?thesis by (simp add: a)
qed

subsection \<open>BC dates\<close>

lemma bc_key:
  assumes "bcForm d n"
  shows "normalizeDate d eras = jsneg (toDouble (real (digitsVal n)))"
proof -
  from assms have h: "d \<noteq> []" "matchBC (trim d) = Some n" "n \<noteq> []" "\<forall>c \<in> set n. isDigit c"
    unfolding bcForm_def by blast+
  show ?thesis using h(1,2) parseFloat_digits[OF h(3,4)] by (simp add: normalizeDate_def)
qed

subsection \<open>Gregorian dates\<close>

lemma gregorian_key:
  assumes "gregorianForm d y mo dd h mi s"
  shows "normalizeDate d eras =
           (case DateUTC y (mo - 1) dd h mi s of None \<Rightarrow> PosInf | Some z \<Rightarrow> Num (real_of_int z))"
proof -
  from assms obtain ys ms ds tm where g: "matchGregorian (trim d) = Some (ys, ms, ds, tm)"
      and ne: "d \<noteq> []"
      and p: "parseInt10 ys = Some y" "parseInt10 ms = Some mo" "parseInt10 ds = Some dd"
      and t: "case tm of None \<Rightarrow> h = 0 \<and> mi = 0 \<and> s = 0
              | Some (hs, mis, ss) \<Rightarrow>
                  parseInt10 hs = Some h \<and> parseInt10 mis = Some mi \<and> parseInt10 ss = Some s"
    unfolding gregorianForm_def by (auto split: option.splits)
  have z: "parseInt10 [48, 48] = Some 0"
    by (simp add: parseInt10_def isWhiteSpace_def isDigit_def digitsVal_def)
  have "gregorianValue (ys, ms, ds, tm) =
      (case DateUTC y (mo - 1) dd h mi s of None \<Rightarrow> PosInf | Some z \<Rightarrow> Num (real_of_int z))"
  proof (cases tm)
    case None
    with t p z show ?thesis by (simp add: gregorianValue_def)
  next
    case (Some x)
    obtain hs mis ss where x: "x = (hs, mis, ss)" by (cases x) auto
    with t p Some show ?thesis by (simp add: gregorianValue_def)
  qed
  then show ?thesis using normalizeDate_gregorian[OF ne g] by simp
qed

lemma div_succ:
  fixes a c :: int
  assumes "0 < c"
  shows "(a + 1) div c = a div c + (if (a + 1) mod c = 0 then 1 else 0)"
proof -
  have e: "c * (a div c) + a mod c = a" by simp
  have r: "0 \<le> a mod c" "a mod c < c" using assms by simp_all
  show ?thesis
  proof (cases "a mod c + 1 = c")
    case True
    have "c * (a div c + 1) = c * (a div c) + c" by (simp add: algebra_simps)
    then have eq: "a + 1 = c * (a div c + 1) + 0" using e True by linarith
    have "(a + 1) div c = a div c + 1" by (rule int_div_pos_eq[OF eq]) (use assms in simp_all)
    moreover have "(a + 1) mod c = 0" by (rule int_mod_pos_eq[OF eq]) (use assms in simp_all)
    ultimately show ?thesis by simp
  next
    case False
    then have lt: "a mod c + 1 < c" using r by linarith
    have eq: "a + 1 = c * (a div c) + (a mod c + 1)" using e by linarith
    have nn: "0 \<le> a mod c + 1" using r by linarith
    have "(a + 1) div c = a div c" by (rule int_div_pos_eq[OF eq nn lt])
    moreover have "(a + 1) mod c = a mod c + 1" by (rule int_mod_pos_eq[OF eq nn lt])
    ultimately show ?thesis using r by simp
  qed
qed

lemma mod_shift:
  fixes y c k :: int
  shows "(y - c * k) mod c = y mod c"
proof -
  have "y - c * k = y + c * (- k)" by simp
  then show ?thesis by (simp only: mod_mult_self2)
qed

lemma DayFromYear_step:
  "DayFromYear (y + 1) = DayFromYear y + 365 + (if InLeapYear y then 1 else 0)"
proof -
  have a: "(y + 1 - 1969) div 4 = (y - 1969) div 4 + (if y mod 4 = 0 then 1 else 0)"
  proof -
    have "(y - 1969 + 1) mod 4 = y mod 4" using mod_shift[of y 4 492] by simp
    then show ?thesis using div_succ[of 4 "y - 1969"] by (simp add: algebra_simps)
  qed
  have b: "(y + 1 - 1901) div 100 = (y - 1901) div 100 + (if y mod 100 = 0 then 1 else 0)"
  proof -
    have "(y - 1901 + 1) mod 100 = y mod 100" using mod_shift[of y 100 19] by simp
    then show ?thesis using div_succ[of 100 "y - 1901"] by (simp add: algebra_simps)
  qed
  have c: "(y + 1 - 1601) div 400 = (y - 1601) div 400 + (if y mod 400 = 0 then 1 else 0)"
  proof -
    have "(y - 1601 + 1) mod 400 = y mod 400" using mod_shift[of y 400 4] by simp
    then show ?thesis using div_succ[of 400 "y - 1601"] by (simp add: algebra_simps)
  qed
  have d: "y mod 100 = 0" if "y mod 400 = 0"
  proof -
    have "y mod 400 mod 100 = y mod 100" by (rule mod_mod_cancel) simp
    then show ?thesis using that by simp
  qed
  show ?thesis
    unfolding DayFromYear_def InLeapYear_def a b c using d by auto
qed

lemma DayFromYear_next:
  assumes "y < y'"
  shows "DayFromYear y + 365 + (if InLeapYear y then 1 else 0) \<le> DayFromYear y'"
proof -
  have "DayFromYear (y + 1) \<le> DayFromYear (y + 1 + int n)" for n
  proof (induction n)
    case 0
    show ?case by simp
  next
    case (Suc n)
    have "DayFromYear (y + 1 + int (Suc n)) = DayFromYear ((y + 1 + int n) + 1)"
      by (simp add: algebra_simps)
    also have "\<dots> \<ge> DayFromYear (y + 1 + int n)"
      unfolding DayFromYear_step by simp
    finally show ?case using Suc by linarith
  qed
  from this[of "nat (y' - y - 1)"] have "DayFromYear (y + 1) \<le> DayFromYear y'"
    using assms by simp
  then show ?thesis unfolding DayFromYear_step .
qed

lemma month_cases:
  fixes mo :: int
  assumes "1 \<le> mo" "mo \<le> 12"
  shows "mo = 1 \<or> mo = 2 \<or> mo = 3 \<or> mo = 4 \<or> mo = 5 \<or> mo = 6 \<or>
         mo = 7 \<or> mo = 8 \<or> mo = 9 \<or> mo = 10 \<or> mo = 11 \<or> mo = 12"
  using assms by presburger

lemma monthEnd:
  assumes "1 \<le> mo" "mo \<le> 12"
  shows "monthStart y (mo - 1) + daysInMonth y mo =
           (if mo = 12 then 365 + (if InLeapYear y then 1 else 0) else monthStart y mo)"
  using month_cases[OF assms]
  by (elim disjE) (simp_all add: monthStart_def daysInMonth_def Let_def)

lemma monthStart_upper: "monthStart y mn \<le> 334 + (if InLeapYear y then 1 else 0)"
  by (simp add: monthStart_def Let_def)

lemma monthStart_mono:
  assumes "0 \<le> a" "a \<le> b" "b \<le> 11"
  shows "monthStart y a \<le> monthStart y b"
proof -
  have "monthStart y a \<le> monthStart y (a + int n)" if "a + int n \<le> 11" for n
    using that
  proof (induction n)
    case 0
    show ?case by simp
  next
    case (Suc n)
    have r: "1 \<le> a + int n + 1" "a + int n + 1 \<le> 12" using Suc.prems assms(1) by simp_all
    have "monthStart y (a + int n) + daysInMonth y (a + int n + 1) = monthStart y (a + int n + 1)"
      using monthEnd[OF r, of y] Suc.prems by simp
    moreover have "0 \<le> daysInMonth y (a + int n + 1)" by (simp add: daysInMonth_def)
    ultimately have "monthStart y (a + int n) \<le> monthStart y (a + int (Suc n))"
      by (simp add: algebra_simps)
    then show ?case using Suc by simp
  qed
  from this[of "nat (b - a)"] show ?thesis using assms by simp
qed

lemma dayOfYear_bounds:
  assumes "1 \<le> mo" "mo \<le> 12" "1 \<le> dd" "dd \<le> daysInMonth y mo"
  shows "0 \<le> monthStart y (mo - 1) + dd - 1"
    and "monthStart y (mo - 1) + dd - 1 \<le> 364 + (if InLeapYear y then 1 else 0)"
proof -
  show "0 \<le> monthStart y (mo - 1) + dd - 1"
    using monthStart_nonneg[of y "mo - 1"] assms(3) by linarith
  have "monthStart y (mo - 1) + daysInMonth y mo \<le> 365 + (if InLeapYear y then 1 else 0)"
    using monthEnd[OF assms(1,2), of y] monthStart_upper[of y mo] by (simp split: if_splits)
  then show "monthStart y (mo - 1) + dd - 1 \<le> 364 + (if InLeapYear y then 1 else 0)"
    using assms(4) by linarith
qed

lemma dayOfYear_month_lt:
  assumes "1 \<le> mo" "mo < mo'" "mo' \<le> 12" "dd \<le> daysInMonth y mo" "1 \<le> dd'"
  shows "monthStart y (mo - 1) + dd - 1 < monthStart y (mo' - 1) + dd' - 1"
proof -
  have "monthStart y (mo - 1) + daysInMonth y mo = monthStart y mo"
    using monthEnd[of mo y] assms(1,2,3) by simp
  moreover have "monthStart y mo \<le> monthStart y (mo' - 1)"
    by (rule monthStart_mono) (use assms in simp_all)
  ultimately show ?thesis using assms(4,5) by linarith
qed

lemma dayNumber_lt:
  assumes v: "1 \<le> mo" "mo \<le> 12" "1 \<le> dd" "dd \<le> daysInMonth y mo"
    and v': "1 \<le> mo'" "mo' \<le> 12" "1 \<le> dd'" "dd' \<le> daysInMonth y' mo'"
    and lt: "y < y' \<or> (y = y' \<and> (mo < mo' \<or> (mo = mo' \<and> dd < dd')))"
  shows "dayNumber y mo dd + 1 \<le> dayNumber y' mo' dd'"
proof -
  consider "y < y'" | "y = y'" "mo < mo'" | "y = y'" "mo = mo'" "dd < dd'" using lt by auto
  then show ?thesis
  proof cases
    case 1
    from DayFromYear_next[OF 1] dayOfYear_bounds(2)[OF v] dayOfYear_bounds(1)[OF v']
    show ?thesis unfolding dayNumber_def by linarith
  next
    case 2
    from dayOfYear_month_lt[OF v(1) 2(2) v'(2) v(4) v'(3)]
    show ?thesis unfolding dayNumber_def 2(1) by linarith
  next
    case 3
    then show ?thesis unfolding dayNumber_def by simp
  qed
qed

lemma DayFromYear_upper:
  assumes "y \<le> 9999"
  shows "DayFromYear y \<le> 2932600"
proof -
  have a: "4 * ((y - 1969) div 4) \<le> y - 1969" by (rule div_bounds(1)) simp
  have b: "y - 1901 < 100 * ((y - 1901) div 100) + 100" by (rule div_bounds(2)) simp
  have c: "400 * ((y - 1601) div 400) \<le> y - 1601" by (rule div_bounds(1)) simp
  define q4 where "q4 = (y - 1969) div 4"
  define q100 where "q100 = (y - 1901) div 100"
  define q400 where "q400 = (y - 1601) div 400"
  have a': "4 * q4 \<le> y - 1969" and b': "y - 2000 \<le> 100 * q100" and c': "400 * q400 \<le> y - 1601"
    using a b c unfolding q4_def q100_def q400_def by simp_all
  have "400 * (365 * (y - 1970) + q4 - q100 + q400) =
        146000 * (y - 1970) + 100 * (4 * q4) - 4 * (100 * q100) + 400 * q400" by simp
  also have "\<dots> \<le> 146000 * (y - 1970) + 100 * (y - 1969) - 4 * (y - 2000) + (y - 1601)"
    using a' b' c' by simp
  finally have "400 * (365 * (y - 1970) + q4 - q100 + q400) \<le> 146097 * y - 287810501" by simp
  then have "400 * (365 * (y - 1970) + q4 - q100 + q400) \<le> 146097 * 9999 - 287810501"
    using assms by simp
  then have "365 * (y - 1970) + q4 - q100 + q400 \<le> 2932600" by simp
  then show ?thesis unfolding DayFromYear_def q4_def q100_def q400_def .
qed

lemma DateUTC_valid:
  assumes "validFields y mo dd h mi s"
  shows "DateUTC y (mo - 1) dd h mi s =
           Some (dayNumber y mo dd * 86400000 + (h * 3600000 + mi * 60000 + s * 1000))"
proof -
  from assms have v: "100 \<le> y" "y \<le> 9999" "1 \<le> mo" "mo \<le> 12" "1 \<le> dd" "dd \<le> daysInMonth y mo"
      "0 \<le> h" "h < 24" "0 \<le> mi" "mi < 60" "0 \<le> s" "s < 60"
    unfolding validFields_def by blast+
  have fy: "MakeFullYear y = y" using v(1) by (simp add: MakeFullYear_def)
  have dm: "(mo - 1) div 12 = 0" "(mo - 1) mod 12 = mo - 1" using v(3,4) by simp_all
  have md: "MakeDay y (mo - 1) dd = dayNumber y mo dd"
    by (simp add: MakeDay_def dm dayNumber_def)
  have lo: "- 683371 \<le> DayFromYear y" using DayFromYear_lower[of y] v(1) by simp
  have hi: "DayFromYear y \<le> 2932600" using DayFromYear_upper[OF v(2)] .
  have doy: "0 \<le> monthStart y (mo - 1) + dd - 1" "monthStart y (mo - 1) + dd - 1 \<le> 365"
    using dayOfYear_bounds[OF v(3,4,5,6)] by (simp_all split: if_splits)
  have dn: "- 683371 \<le> dayNumber y mo dd" "dayNumber y mo dd \<le> 2932965"
    using lo hi doy unfolding dayNumber_def by linarith+
  have tm: "0 \<le> h * 3600000 + mi * 60000 + s * 1000" "h * 3600000 + mi * 60000 + s * 1000 < 86400000"
    using v(7-12) by linarith+
  have "\<bar>dayNumber y mo dd * 86400000 + (h * 3600000 + mi * 60000 + s * 1000)\<bar> \<le> 8640000000000000"
    using dn tm by linarith
  then show ?thesis
    by (simp add: DateUTC_def fy md MakeDate_def MakeTime_def TimeClip_def)
qed

lemma timeOfDay_lt:
  fixes h mi s h' mi' s' :: int
  assumes "0 \<le> mi" "mi < 60" "0 \<le> s" "s < 60" "0 \<le> mi'" "0 \<le> s'"
    and "h < h' \<or> (h = h' \<and> (mi < mi' \<or> (mi = mi' \<and> s < s')))"
  shows "h * 3600000 + mi * 60000 + s * 1000 < h' * 3600000 + mi' * 60000 + s' * 1000"
  using assms by linarith

lemma gregorian_order:
  assumes a: "gregorianForm d1 y mo dd h mi s" and b: "gregorianForm d2 y' mo' dd' h' mi' s'"
    and va: "validFields y mo dd h mi s" and vb: "validFields y' mo' dd' h' mi' s'"
    and lt: "fieldsBefore y mo dd h mi s y' mo' dd' h' mi' s'"
  shows "jsless (normalizeDate d1 eras) (normalizeDate d2 eras)"
proof -
  from va have v: "1 \<le> mo" "mo \<le> 12" "1 \<le> dd" "dd \<le> daysInMonth y mo"
      "0 \<le> h" "h < 24" "0 \<le> mi" "mi < 60" "0 \<le> s" "s < 60"
    unfolding validFields_def by blast+
  from vb have v': "1 \<le> mo'" "mo' \<le> 12" "1 \<le> dd'" "dd' \<le> daysInMonth y' mo'"
      "0 \<le> h'" "h' < 24" "0 \<le> mi'" "mi' < 60" "0 \<le> s'" "s' < 60"
    unfolding validFields_def by blast+
  have k1: "normalizeDate d1 eras =
      Num (real_of_int (dayNumber y mo dd * 86400000 + (h * 3600000 + mi * 60000 + s * 1000)))"
    unfolding gregorian_key[OF a] DateUTC_valid[OF va] by simp
  have k2: "normalizeDate d2 eras =
      Num (real_of_int (dayNumber y' mo' dd' * 86400000 + (h' * 3600000 + mi' * 60000 + s' * 1000)))"
    unfolding gregorian_key[OF b] DateUTC_valid[OF vb] by simp
  have tm: "h * 3600000 + mi * 60000 + s * 1000 < 86400000" using v(5-10) by linarith
  have tm': "0 \<le> h' * 3600000 + mi' * 60000 + s' * 1000" using v'(5-10) by linarith
  consider "y < y' \<or> (y = y' \<and> (mo < mo' \<or> (mo = mo' \<and> dd < dd')))"
    | "y = y'" "mo = mo'" "dd = dd'" "h < h' \<or> (h = h' \<and> (mi < mi' \<or> (mi = mi' \<and> s < s')))"
    using lt unfolding fieldsBefore_def by blast
  then have "dayNumber y mo dd * 86400000 + (h * 3600000 + mi * 60000 + s * 1000)
           < dayNumber y' mo' dd' * 86400000 + (h' * 3600000 + mi' * 60000 + s' * 1000)"
  proof cases
    case 1
    from dayNumber_lt[OF v(1-4) v'(1-4) 1] tm tm' show ?thesis by linarith
  next
    case 2
    from timeOfDay_lt[OF v(7-10) v'(7) v'(9) 2(4)] show ?thesis unfolding 2(1,2,3) by linarith
  qed
  then show ?thesis unfolding k1 k2 by simp
qed

subsection \<open>Where the order key is not monotonic\<close>

lemma replicate_numeral: "replicate (numeral k) x = x # replicate (pred_numeral k) x"
  by (simp add: numeral_eq_Suc)

lemmas form_eval = replicate_numeral customEraForm_def bcForm_def gregorianForm_def LEGEND_ERA_def
  GREGORIAN_ANCHOR_def lit_def trim_def isWhiteSpace_def isDigit_def matchBC_def bcPrefix_def
  matchGregorian_def matchGregorianDay_def matchTime_def startsWith_def parseInt10_def
  digitsVal_def

text \<open>
  The keys of 1 January and 1 February of year 3 of the legend era, the era before the
  anchor: both decimals are rounded to multiples of \<open>2^(-51)\<close>, and both sums with
  \<open>-10^14\<close> to the same multiple of \<open>2^(-6)\<close>, the spacing of binary64 values at \<open>10^14\<close>.
\<close>

lemma toDouble_3_0101:
  "toDouble (30101 / 10000) = Num (6778142619173965 / 2251799813685248)"
  using toDouble_eval[of 1 "30101 / 10000" 6778142619173965] by (simp add: pow2_def)

lemma toDouble_3_0201:
  "toDouble (30201 / 10000) = Num (6800660617310817 / 2251799813685248)"
  using toDouble_eval[of 1 "30201 / 10000" 6800660617310817] by (simp add: pow2_def)

lemma toDouble_january_sum:
  "toDouble (- (225179981368518021857380826035 / 2251799813685248)) =
     Num (- (6399999999999807 / 64))"
  using toDouble_eval[of 46 "- (225179981368518021857380826035 / 2251799813685248)"
          "- 6399999999999807"]
  by (simp add: pow2_def)

lemma toDouble_february_sum:
  "toDouble (- (225179981368517999339382689183 / 2251799813685248)) =
     Num (- (6399999999999807 / 64))"
  using toDouble_eval[of 46 "- (225179981368517999339382689183 / 2251799813685248)"
          "- 6399999999999807"]
  by (simp add: pow2_def)

lemma january_key:
  "normalizeDate (LEGEND_ERA @ lit '' 3.0101000000'') [LEGEND_ERA, GREGORIAN_ANCHOR] =
     Num (- (6399999999999807 / 64))"
proof -
  have f: "customEraForm (LEGEND_ERA @ lit '' 3.0101000000'') [LEGEND_ERA, GREGORIAN_ANCHOR] 0
             (lit ''3'') (lit ''0101000000'')"
    by (simp add: form_eval)
  have a: "anchorIndexOf [LEGEND_ERA, GREGORIAN_ANCHOR] = 1"
    by (simp add: anchorIndexOf_def LEGEND_ERA_def GREGORIAN_ANCHOR_def)
  have d: "decimalValue (lit ''3'') (padEnd 10 48 (lit ''0101000000'')) = 30101 / 10000"
    by (simp add: decimalValue_def padEnd_def lit_def digitsVal_def)
  show ?thesis
    unfolding customEra_key[OF f] a d
    by (simp add: ERA_MULTIPLIER_def toDouble_3_0101 toDouble_era_base toDouble_january_sum)
qed

lemma february_key:
  "normalizeDate (LEGEND_ERA @ lit '' 3.0201000000'') [LEGEND_ERA, GREGORIAN_ANCHOR] =
     Num (- (6399999999999807 / 64))"
proof -
  have f: "customEraForm (LEGEND_ERA @ lit '' 3.0201000000'') [LEGEND_ERA, GREGORIAN_ANCHOR] 0
             (lit ''3'') (lit ''0201000000'')"
    by (simp add: form_eval)
  have a: "anchorIndexOf [LEGEND_ERA, GREGORIAN_ANCHOR] = 1"
    by (simp add: anchorIndexOf_def LEGEND_ERA_def GREGORIAN_ANCHOR_def)
  have d: "decimalValue (lit ''3'') (padEnd 10 48 (lit ''0201000000'')) = 30201 / 10000"
    by (simp add: decimalValue_def padEnd_def lit_def digitsVal_def)
  show ?thesis
    unfolding customEra_key[OF f] a d
    by (simp add: ERA_MULTIPLIER_def toDouble_3_0201 toDouble_era_base toDouble_february_sum)
qed

text \<open>
  The keys of the anchor-era value \<open>2 * 10^14\<close>, of the legend-era value 1 in the era after
  the anchor, and of the Gregorian dates 6000-01-01, 0050-01-01 and 0150-01-01.
\<close>

lemma large_value_key:
  "normalizeDate (GREGORIAN_ANCHOR @ lit '' 200000000000000'') [GREGORIAN_ANCHOR, LEGEND_ERA] =
     Num 200000000000000"
proof -
  have f: "customEraForm (GREGORIAN_ANCHOR @ lit '' 200000000000000'')
             [GREGORIAN_ANCHOR, LEGEND_ERA] 0 (lit ''200000000000000'') []"
    by (simp add: form_eval)
  have an: "anchorIndexOf [GREGORIAN_ANCHOR, LEGEND_ERA] = 0" by (simp add: anchorIndexOf_def)
  have d: "decimalValue (lit ''200000000000000'') (padEnd 10 48 []) = 200000000000000"
    unfolding padEnd_Nil decimalValue_zeros by (simp add: lit_def digitsVal_def)
  show ?thesis
    unfolding customEra_key[OF f] an d
    using toDouble_int[of 200000000000000] by (simp add: toDouble_def)
qed

lemma next_era_key:
  "normalizeDate (LEGEND_ERA @ lit '' 1'') [GREGORIAN_ANCHOR, LEGEND_ERA] = Num 100000000000001"
proof -
  have f: "customEraForm (LEGEND_ERA @ lit '' 1'') [GREGORIAN_ANCHOR, LEGEND_ERA] 1 (lit ''1'') []"
    by (simp add: form_eval)
  have an: "anchorIndexOf [GREGORIAN_ANCHOR, LEGEND_ERA] = 0" by (simp add: anchorIndexOf_def)
  have d: "decimalValue (lit ''1'') (padEnd 10 48 []) = 1"
    unfolding padEnd_Nil decimalValue_zeros by (simp add: lit_def digitsVal_def)
  show ?thesis
    unfolding customEra_key[OF f] an d
    using toDouble_int[of 100000000000000] toDouble_int[of 1] toDouble_int[of 100000000000001]
    by (simp add: ERA_MULTIPLIER_def)
qed

lemma year_6000_key:
  "normalizeDate (lit ''6000-01-01'') [GREGORIAN_ANCHOR, LEGEND_ERA] = Num 127174492800000"
proof -
  have fg: "gregorianForm (lit ''6000-01-01'') 6000 1 1 0 0 0" by (simp add: form_eval)
  have vg: "validFields 6000 1 1 0 0 0" by (simp add: validFields_def daysInMonth_def)
  show ?thesis
    unfolding gregorian_key[OF fg] DateUTC_valid[OF vg]
    by (simp add: dayNumber_def DayFromYear_def monthStart_def)
qed

lemma two_digit_year_keys:
  "normalizeDate (lit ''0050-01-01'') eras = Num (- 631152000000) \<and>
   normalizeDate (lit ''0150-01-01'') eras = Num (- 57433622400000)"
proof -
  have f1: "gregorianForm (lit ''0050-01-01'') 50 1 1 0 0 0" by (simp add: form_eval)
  have f2: "gregorianForm (lit ''0150-01-01'') 150 1 1 0 0 0" by (simp add: form_eval)
  have v2: "validFields 150 1 1 0 0 0" by (simp add: validFields_def daysInMonth_def)
  have k1: "normalizeDate (lit ''0050-01-01'') eras = Num (- 631152000000)"
    unfolding gregorian_key[OF f1]
    by (simp add: DateUTC_def MakeFullYear_def MakeDay_def MakeDate_def MakeTime_def TimeClip_def
          DayFromYear_def monthStart_def)
  have k2: "normalizeDate (lit ''0150-01-01'') eras = Num (- 57433622400000)"
    unfolding gregorian_key[OF f2] DateUTC_valid[OF v2]
    by (simp add: dayNumber_def DayFromYear_def monthStart_def)
  show ?thesis using k1 k2 by simp
qed

text \<open>
  C2. The claim asks for \<open>key(A) < key(B)\<close> whenever \<open>A\<close> is before \<open>B\<close> in one era, and for
  the era position to decide between eras. The code does not deliver either.

  \<^item> Same era: with the era order [legend era, anchor], 1 January and 1 February of year
    3 of the legend era, written as the event form writes them, both have the key
    \<open>-99999999999996.984375\<close>; neither is less than the other. Binary64 values near \<open>10^14\<close>
    are \<open>1/64\<close> apart, so in every era but the one at the anchor position the month, day
    and time digits of the fraction are lost.
  \<^item> Different eras: with the era order [anchor, legend era], the anchor-era value
    \<open>2 * 10^14\<close> (position 0) has the key \<open>2 * 10^14\<close>, which is not less than the key
    \<open>10^14 + 1\<close> of the legend-era value 1 (position 1); nor is the key \<open>127174492800000\<close>
    of the Gregorian date 6000-01-01.
  \<^item> Gregorian dates: the year 0050 is read by \<open>Date.UTC\<close> as 1950, so 0050-01-01 does
    not get a smaller key than 0150-01-01.
\<close>

theorem date_key_order_violated:
  "normalizeDate (LEGEND_ERA @ lit '' 3.0101000000'') [LEGEND_ERA, GREGORIAN_ANCHOR] =
     Num (- (6399999999999807 / 64)) \<and>
   normalizeDate (LEGEND_ERA @ lit '' 3.0201000000'') [LEGEND_ERA, GREGORIAN_ANCHOR] =
     Num (- (6399999999999807 / 64)) \<and>
   \<not> jsless (normalizeDate (LEGEND_ERA @ lit '' 3.0101000000'') [LEGEND_ERA, GREGORIAN_ANCHOR])
            (normalizeDate (LEGEND_ERA @ lit '' 3.0201000000'') [LEGEND_ERA, GREGORIAN_ANCHOR]) \<and>
   \<not> jspositive (jssub (normalizeDate (LEGEND_ERA @ lit '' 3.0201000000'')
                           [LEGEND_ERA, GREGORIAN_ANCHOR])
                        (normalizeDate (LEGEND_ERA @ lit '' 3.0101000000'')
                           [LEGEND_ERA, GREGORIAN_ANCHOR])) \<and>
   normalizeDate (GREGORIAN_ANCHOR @ lit '' 200000000000000'') [GREGORIAN_ANCHOR, LEGEND_ERA] =
     Num 200000000000000 \<and>
   normalizeDate (lit ''6000-01-01'') [GREGORIAN_ANCHOR, LEGEND_ERA] = Num 127174492800000 \<and>
   normalizeDate (LEGEND_ERA @ lit '' 1'') [GREGORIAN_ANCHOR, LEGEND_ERA] = Num 100000000000001 \<and>
   \<not> jsless (normalizeDate (GREGORIAN_ANCHOR @ lit '' 200000000000000'')
               [GREGORIAN_ANCHOR, LEGEND_ERA])
            (normalizeDate (LEGEND_ERA @ lit '' 1'') [GREGORIAN_ANCHOR, LEGEND_ERA]) \<and>
   \<not> jsless (normalizeDate (lit ''6000-01-01'') [GREGORIAN_ANCHOR, LEGEND_ERA])
            (normalizeDate (LEGEND_ERA @ lit '' 1'') [GREGORIAN_ANCHOR, LEGEND_ERA]) \<and>
   \<not> jsless (normalizeDate (lit ''0050-01-01'') [GREGORIAN_ANCHOR])
            (normalizeDate (lit ''0150-01-01'') [GREGORIAN_ANCHOR])"
proof -
  have y: "\<not> jsless (normalizeDate (lit ''0050-01-01'') [GREGORIAN_ANCHOR])
            (normalizeDate (lit ''0150-01-01'') [GREGORIAN_ANCHOR])"
    using two_digit_year_keys[of "[GREGORIAN_ANCHOR]"] by simp
  have z: "\<not> jspositive (jssub (Num (- (6399999999999807 / 64))) (Num (- (6399999999999807 / 64))))"
    by (simp add: jspositive_def jssub_def toDouble_def)
  show ?thesis
    unfolding january_key february_key large_value_key next_era_key year_6000_key
    using y z by simp
qed

section \<open>Properties of the layout engine\<close>

subsection \<open>Sorting and grouping\<close>

lemma set_insertSorted: "set (insertSorted cmp a xs) = insert a (set xs)"
  by (induction xs) auto

lemma set_sortBy: "set (sortBy cmp xs) = set xs"
  unfolding sortBy_def by (induction xs) (auto simp: set_insertSorted)



lemma set_sortedEvents: "set (sortedEvents inp) = {e \<in> set (events inp). isComplete e}"
  by (simp add: sortedEvents_def sortedEventsOf_def set_sortBy)

definition valuesOr :: "'a list option \<Rightarrow> 'a list" where
  "valuesOr v = (case v of None \<Rightarrow> [] | Some vs \<Rightarrow> vs)"

lemma map_of_pushTo: "map_of (pushTo k v m) = (map_of m)(k \<mapsto> valuesOr (map_of m k) @ [v])"
  by (auto simp: pushTo_def valuesOr_def AList.update_conv' split: option.splits)

lemma distinct_pushTo: "distinct (map fst m) \<Longrightarrow> distinct (map fst (pushTo k v m))"
  by (auto simp: pushTo_def AList.distinct_update split: option.splits)

lemma keys_pushTo: "fst ` set (pushTo k v m) = insert k (fst ` set m)"
  by (auto simp: pushTo_def AList.dom_update split: option.splits)

text \<open>The fold that groups a list of events by day key, from any start.\<close>

lemma group_fold:
  "map_of (foldl (\<lambda>m e. pushTo (getDayKey (date e)) e m) m evs) k =
     (if map_of m k = None \<and> filter (\<lambda>e. getDayKey (date e) = k) evs = [] then None
      else Some (valuesOr (map_of m k) @ filter (\<lambda>e. getDayKey (date e) = k) evs))"
proof (induction evs arbitrary: m)
  case Nil
  show ?case by (cases "map_of m k") (simp_all add: valuesOr_def)
next
  case (Cons e evs)
  show ?case
    unfolding foldl_Cons Cons.IH
    by (cases "map_of m k") (auto simp: map_of_pushTo valuesOr_def)
qed

lemma group_fold_distinct:
  "distinct (map fst m) \<Longrightarrow> distinct (map fst (foldl (\<lambda>m e. pushTo (getDayKey (date e)) e m) m evs))"
  by (induction evs arbitrary: m) (simp_all add: distinct_pushTo)

lemma group_fold_keys:
  "fst ` set (foldl (\<lambda>m e. pushTo (getDayKey (date e)) e m) m evs) =
     fst ` set m \<union> (\<lambda>e. getDayKey (date e)) ` set evs"
  by (induction evs arbitrary: m) (auto simp: keys_pushTo)

lemma map_of_groupByDay:
  "map_of (groupByDay evs) k =
     (if filter (\<lambda>e. getDayKey (date e) = k) evs = [] then None
      else Some (filter (\<lambda>e. getDayKey (date e) = k) evs))"
  unfolding groupByDay_def group_fold by (simp add: valuesOr_def)

lemma distinct_groupByDay: "distinct (map fst (groupByDay evs))"
  unfolding groupByDay_def by (rule group_fold_distinct) simp

lemma keys_groupByDay: "fst ` set (groupByDay evs) = (\<lambda>e. getDayKey (date e)) ` set evs"
  unfolding groupByDay_def by (simp add: group_fold_keys)

lemma groupByDay_entry:
  assumes "(k, vs) \<in> set (groupByDay evs)"
  shows "vs = filter (\<lambda>e. getDayKey (date e) = k) evs" and "vs \<noteq> []"
proof -
  have "map_of (groupByDay evs) k = Some vs"
    using assms distinct_groupByDay by (simp add: map_of_is_SomeI)
  then show "vs = filter (\<lambda>e. getDayKey (date e) = k) evs" and "vs \<noteq> []"
    by (auto simp: map_of_groupByDay split: if_splits)
qed

lemma groupByDay_member:
  assumes "e \<in> set evs"
  shows "(getDayKey (date e), filter (\<lambda>x. getDayKey (date x) = getDayKey (date e)) evs)
           \<in> set (groupByDay evs)"
proof -
  have "filter (\<lambda>x. getDayKey (date x) = getDayKey (date e)) evs \<noteq> []"
    using assms by (auto simp: filter_empty_conv)
  then have "map_of (groupByDay evs) (getDayKey (date e)) =
      Some (filter (\<lambda>x. getDayKey (date x) = getDayKey (date e)) evs)"
    by (simp add: map_of_groupByDay)
  then show ?thesis by (rule map_of_SomeD)
qed

subsection \<open>Events by storyline and day\<close>

lemma map_of_initStorylineMaps:
  "map_of (initStorylineMaps sls) sid = (if sid \<in> id_storyline ` set sls then Some [] else None)"
proof -
  have "map_of (foldl (\<lambda>m s. AList.update (id_storyline s) [] m) m sls) sid =
        (if sid \<in> id_storyline ` set sls then Some [] else map_of m sid)"
    for m :: "(jsstring \<times> (jsstring \<times> StoryEvent list) list) list"
    by (induction sls arbitrary: m) (auto simp: AList.update_conv')
  from this[of "[]"] show ?thesis by (simp add: initStorylineMaps_def)
qed

lemma map_of_addToStoryline_fold:
  "map_of (foldl addToStoryline m evs) sid =
     map_option (\<lambda>dm. foldl (\<lambda>m e. pushTo (getDayKey (date e)) e m) dm
                        (filter (\<lambda>e. storylineId e = Some sid) evs))
       (map_of m sid)"
proof (induction evs arbitrary: m)
  case Nil
  show ?case by (simp add: option.map_ident)
next
  case (Cons e evs)
  show ?case
  proof (cases "storylineId e")
    case None
    then show ?thesis using Cons.IH[of m] by (simp add: addToStoryline_def)
  next
    case (Some s)
    show ?thesis
    proof (cases "map_of m s")
      case None
      then show ?thesis using Cons.IH[of m] Some by (auto simp: addToStoryline_def)
    next
      case (Some dm)
      then show ?thesis
        using Cons.IH[of "AList.update s (pushTo (getDayKey (date e)) e dm) m"] \<open>storylineId e = Some s\<close>
        by (auto simp: addToStoryline_def AList.update_conv')
    qed
  qed
qed

lemma map_of_eventsByStorylineAndDay:
  "map_of (eventsByStorylineAndDay inp) sid =
     (if sid \<in> id_storyline ` set (storylines inp)
      then Some (groupByDay (filter (\<lambda>e. storylineId e = Some sid) (sortedEvents inp)))
      else None)"
  by (simp add: eventsByStorylineAndDay_def eventsByStorylineAndDayOf_def
        map_of_addToStoryline_fold map_of_initStorylineMaps groupByDay_def)

subsection \<open>The placement loops store the slots\<close>

lemma placeStack_slots:
  "placeStack T L ex cs sl bx evs y0 m = foldl putLayout m (stackSlots T L ex cs sl bx evs y0)"
  by (induction evs arbitrary: y0 m) (auto simp: putLayout_def Let_def split: option.splits)

lemma placeDays_slots:
  "placeDays T L ex cs cols sl lane dm m = foldl putLayout m (daySlots T L ex cs cols sl lane dm)"
proof (induction dm arbitrary: m)
  case Nil
  show ?case by (simp add: daySlots_def)
next
  case (Cons p dm)
  obtain dk evs where p: "p = (dk, evs)" by (cases p) auto
  have ds: "daySlots T L ex cs cols sl lane (p # dm) =
      (case cols dk of None \<Rightarrow> []
       | Some col \<Rightarrow> stackSlots T L ex cs sl (x_column col) evs (stackStart ex cs lane evs)) @
      daySlots T L ex cs cols sl lane dm"
    by (simp add: daySlots_def p)
  show ?case
    unfolding ds unfolding p placeDays.simps
    by (cases "cols dk") (simp_all add: Cons.IH placeStack_slots stackStart_def Let_def)
qed

lemma placeStorylines_slots:
  "placeStorylines T L ex cs cols lanes by sls m =
     foldl putLayout m (allSlots T L ex cs cols lanes by sls)"
proof (induction sls arbitrary: m)
  case Nil
  show ?case by (simp add: allSlots_def)
next
  case (Cons sl sls)
  have as: "allSlots T L ex cs cols lanes by (sl # sls) =
      (case lanes (id_storyline sl) of None \<Rightarrow> []
       | Some lane \<Rightarrow> (case map_of by (id_storyline sl) of None \<Rightarrow> []
                        | Some dm \<Rightarrow> daySlots T L ex cs cols sl lane dm)) @
      allSlots T L ex cs cols lanes by sls"
    by (simp add: allSlots_def)
  show ?case
    unfolding placeStorylines.simps as
    by (cases "lanes (id_storyline sl)"; cases "map_of by (id_storyline sl)")
       (simp_all add: Cons.IH placeDays_slots)
qed

lemma foldl_putLayout_lookup:
  "foldl putLayout m ls i = Some l \<Longrightarrow>
     m i = Some l \<or> (l \<in> set ls \<and> id_event (event_layout l) = i)"
proof (induction ls arbitrary: m)
  case Nil
  then show ?case by simp
next
  case (Cons a ls)
  from Cons.IH[of "putLayout m a"] Cons.prems
  have "putLayout m a i = Some l \<or> (l \<in> set ls \<and> id_event (event_layout l) = i)" by simp
  then show ?case by (auto simp: putLayout_def split: if_splits)
qed

lemma eventLayouts_slot:
  assumes "eventLayouts inp i = Some l"
  shows "l \<in> set (allSlots (eventTypes inp) (eventIndentationLevels inp) (expandedEvents inp)
                    (eventConnections inp) (dayColumnGeometries inp) (laneGeometries inp)
                    (eventsByStorylineAndDay inp) (storylines inp))"
    and "id_event (event_layout l) = i"
  using foldl_putLayout_lookup[of Map.empty _ i l] assms
  unfolding eventLayouts_def placeStorylines_slots by auto

lemma allSlots_member:
  assumes "l \<in> set (allSlots T L ex cs cols lanes by sls)"
  shows "\<exists>sl \<in> set sls. \<exists>lane dm dk evs col.
           lanes (id_storyline sl) = Some lane \<and> map_of by (id_storyline sl) = Some dm \<and>
           (dk, evs) \<in> set dm \<and> cols dk = Some col \<and>
           l \<in> set (stackSlots T L ex cs sl (x_column col) evs (stackStart ex cs lane evs))"
proof -
  from assms obtain sl where sl: "sl \<in> set sls"
    and l: "l \<in> set (case lanes (id_storyline sl) of None \<Rightarrow> []
               | Some lane \<Rightarrow> (case map_of by (id_storyline sl) of None \<Rightarrow> []
                                | Some dm \<Rightarrow> daySlots T L ex cs cols sl lane dm))"
    unfolding allSlots_def by auto
  from l obtain lane dm where ld: "lanes (id_storyline sl) = Some lane"
      "map_of by (id_storyline sl) = Some dm" and l2: "l \<in> set (daySlots T L ex cs cols sl lane dm)"
    by (cases "lanes (id_storyline sl)"; cases "map_of by (id_storyline sl)") auto
  from l2 obtain dk evs where de: "(dk, evs) \<in> set dm"
    and l3: "l \<in> set (case cols dk of None \<Rightarrow> []
               | Some col \<Rightarrow> stackSlots T L ex cs sl (x_column col) evs (stackStart ex cs lane evs))"
    unfolding daySlots_def by auto
  from l3 obtain col where col: "cols dk = Some col"
    and l4: "l \<in> set (stackSlots T L ex cs sl (x_column col) evs (stackStart ex cs lane evs))"
    by (cases "cols dk") auto
  show ?thesis using sl ld de col l4 by blast
qed

section \<open>Geometry of columns, lanes and day stacks\<close>

subsection \<open>Day columns\<close>

lemma maxEventWidthOf_fold_ge:
  "w \<le> foldl (\<lambda>maxEventWidth e.
              let eventTotalWidth = real (indentationLevel L e) * INDENTATION_STEP + EVENT_WIDTH
              in if eventTotalWidth > maxEventWidth then eventTotalWidth else maxEventWidth) w evs"
proof (induction evs arbitrary: w)
  case Nil
  show ?case by simp
next
  case (Cons e evs)
  show ?case
    using Cons.IH[of "if real (indentationLevel L e) * INDENTATION_STEP + EVENT_WIDTH > w
                      then real (indentationLevel L e) * INDENTATION_STEP + EVENT_WIDTH else w"]
    by (simp add: Let_def split: if_splits)
qed

lemma maxEventWidthOf_fold_member:
  "e \<in> set evs \<Longrightarrow>
   real (indentationLevel L e) * INDENTATION_STEP + EVENT_WIDTH
     \<le> foldl (\<lambda>maxEventWidth e.
              let eventTotalWidth = real (indentationLevel L e) * INDENTATION_STEP + EVENT_WIDTH
              in if eventTotalWidth > maxEventWidth then eventTotalWidth else maxEventWidth) w evs"
proof (induction evs arbitrary: w)
  case Nil
  then show ?case by simp
next
  case (Cons a evs)
  let ?w' = "if real (indentationLevel L a) * INDENTATION_STEP + EVENT_WIDTH > w
             then real (indentationLevel L a) * INDENTATION_STEP + EVENT_WIDTH else w"
  show ?case
  proof (cases "e = a")
    case True
    have "real (indentationLevel L e) * INDENTATION_STEP + EVENT_WIDTH \<le> ?w'"
      using True by simp
    also have "?w' \<le> foldl (\<lambda>maxEventWidth e.
              let eventTotalWidth = real (indentationLevel L e) * INDENTATION_STEP + EVENT_WIDTH
              in if eventTotalWidth > maxEventWidth then eventTotalWidth else maxEventWidth) ?w' evs"
      by (rule maxEventWidthOf_fold_ge)
    finally show ?thesis by (simp add: Let_def)
  next
    case False
    with Cons.prems have "e \<in> set evs" by simp
    from Cons.IH[OF this, of ?w'] show ?thesis by (simp add: Let_def)
  qed
qed

lemma maxEventWidthOf_ge: "EVENT_WIDTH \<le> maxEventWidthOf L evs"
  unfolding maxEventWidthOf_def by (rule maxEventWidthOf_fold_ge)

lemma maxEventWidthOf_member:
  "e \<in> set evs \<Longrightarrow>
   real (indentationLevel L e) * INDENTATION_STEP + EVENT_WIDTH \<le> maxEventWidthOf L evs"
  unfolding maxEventWidthOf_def by (rule maxEventWidthOf_fold_member)

lemma widths_fold:
  "distinct (map fst (m0 @ ebd)) \<Longrightarrow>
   foldl (\<lambda>m (dayKey, sameDayEvents). m(dayKey \<mapsto> maxEventWidthOf L sameDayEvents)) m ebd k =
     (case map_of ebd k of None \<Rightarrow> m k | Some evs \<Rightarrow> Some (maxEventWidthOf L evs))"
proof (induction ebd arbitrary: m m0)
  case Nil
  show ?case by simp
next
  case (Cons p ebd)
  obtain dk evs where p: "p = (dk, evs)" by (cases p) auto
  from Cons.prems have d: "distinct (map fst ((m0 @ [p]) @ ebd))" by simp
  from Cons.prems have nk: "dk \<notin> fst ` set ebd" by (auto simp: p)
  have nk': "map_of ebd dk = None" using nk by (simp add: map_of_eq_None_iff)
  show ?case
    using Cons.IH[OF d, of "m(dk \<mapsto> maxEventWidthOf L evs)"] nk'
    by (auto simp: p split: option.splits)
qed

lemma dayColumnContentWidthsOf_lookup:
  assumes "distinct (map fst ebd)"
  shows "dayColumnContentWidthsOf ebd L k = map_option (maxEventWidthOf L) (map_of ebd k)"
  using widths_fold[of "[]" ebd L Map.empty k] assms
  unfolding dayColumnContentWidthsOf_def by (simp split: option.splits)

lemma contentWidthOf_ge:
  assumes "distinct (map fst ebd)"
  shows "EVENT_WIDTH \<le> contentWidthOf (dayColumnContentWidthsOf ebd L) k"
  using maxEventWidthOf_ge
  unfolding contentWidthOf_def dayColumnContentWidthsOf_lookup[OF assms]
  by (auto simp: EVENT_WIDTH_def split: option.splits)

lemma contentWidthOf_member:
  assumes "distinct (map fst ebd)" "map_of ebd k = Some evs" "e \<in> set evs"
  shows "real (indentationLevel L e) * INDENTATION_STEP + EVENT_WIDTH
           \<le> contentWidthOf (dayColumnContentWidthsOf ebd L) k"
proof -
  have "EVENT_WIDTH \<le> maxEventWidthOf L evs" by (rule maxEventWidthOf_ge)
  then have "maxEventWidthOf L evs \<noteq> 0" by (simp add: EVENT_WIDTH_def)
  then have "contentWidthOf (dayColumnContentWidthsOf ebd L) k = maxEventWidthOf L evs"
    unfolding contentWidthOf_def dayColumnContentWidthsOf_lookup[OF assms(1)] assms(2) by simp
  then show ?thesis using maxEventWidthOf_member[OF assms(3)] by simp
qed

lemma colsOK_step:
  assumes "colsOK W x g" "PADDING_X \<le> x" "0 \<le> contentWidthOf W k"
  shows "colsOK W (x + contentWidthOf W k + EVENT_GAP)
           (g(k \<mapsto> \<lparr>x_column = x, width_column = contentWidthOf W k\<rparr>))"
  using assms unfolding colsOK_def EVENT_GAP_def
  by (auto; fastforce)

lemma columnLoop_inv:
  assumes "colsOK W x g" "PADDING_X \<le> x" "\<And>k. 0 \<le> contentWidthOf W k"
  shows "colsOK W (snd (columnLoop W days x g)) (fst (columnLoop W days x g))"
  using assms(1,2)
proof (induction days arbitrary: x g)
  case Nil
  then show ?case by simp
next
  case (Cons k days)
  have s: "colsOK W (x + contentWidthOf W k + EVENT_GAP)
             (g(k \<mapsto> \<lparr>x_column = x, width_column = contentWidthOf W k\<rparr>))"
    by (rule colsOK_step[OF Cons.prems(1,2) assms(3)])
  have p: "PADDING_X \<le> x + contentWidthOf W k + EVENT_GAP"
    using Cons.prems(2) assms(3)[of k] by (simp add: EVENT_GAP_def)
  have u: "columnLoop W (k # days) x g =
      columnLoop W days (x + contentWidthOf W k + EVENT_GAP)
        (g(k \<mapsto> \<lparr>x_column = x, width_column = contentWidthOf W k\<rparr>))"
    by (simp add: contentWidthOf_def Let_def)
  show ?case unfolding u by (rule Cons.IH[OF s p])
qed

lemma columnLoop_dom:
  "dom (fst (columnLoop W days x g)) = dom g \<union> set days"
  by (induction days arbitrary: x g) (auto simp: Let_def)

subsection \<open>Lanes\<close>

lemma laneHeightOf_id:
  "laneHeightOf ex cs by sl = laneHeightOf ex cs by \<lparr>id_storyline = id_storyline sl\<rparr>"
  by (simp add: laneHeightOf_def)

lemma laneHeightOf_ge: "MIN_LANE_HEIGHT \<le> laneHeightOf ex cs by sl"
  by (simp add: laneHeightOf_def Let_def)

lemma MIN_LANE_HEIGHT_val: "MIN_LANE_HEIGHT = 80"
  by (simp add: MIN_LANE_HEIGHT_def CAPSULE_HEIGHT_def LANE_VERTICAL_PADDING_def)

lemma lanesOK_step:
  assumes "lanesOK ex cs by y g" "0 \<le> y"
  shows "lanesOK ex cs by (y + laneHeightOf ex cs by sl)
           (g(id_storyline sl \<mapsto> \<lparr>y_lane = y, height_lane = laneHeightOf ex cs by sl\<rparr>))"
proof -
  have h: "0 \<le> laneHeightOf ex cs by sl"
    using laneHeightOf_ge[of ex cs "by" sl] by (simp add: MIN_LANE_HEIGHT_val)
  have i: "laneHeightOf ex cs by sl = laneHeightOf ex cs by \<lparr>id_storyline = id_storyline sl\<rparr>"
    by (rule laneHeightOf_id)
  show ?thesis
    using assms h i unfolding lanesOK_def
    by (auto; fastforce)
qed

lemma laneLoop_inv:
  assumes "lanesOK ex cs by y g" "0 \<le> y"
  shows "lanesOK ex cs by (snd (laneLoop ex cs by sls y g)) (fst (laneLoop ex cs by sls y g))"
  using assms
proof (induction sls arbitrary: y g)
  case Nil
  then show ?case by simp
next
  case (Cons sl sls)
  have h: "0 \<le> y + laneHeightOf ex cs by sl"
    using laneHeightOf_ge[of ex cs "by" sl] Cons.prems(2) by (simp add: MIN_LANE_HEIGHT_val)
  have u: "laneLoop ex cs by (sl # sls) y g =
      laneLoop ex cs by sls (y + laneHeightOf ex cs by sl)
        (g(id_storyline sl \<mapsto> \<lparr>y_lane = y, height_lane = laneHeightOf ex cs by sl\<rparr>))"
    by (simp add: Let_def)
  show ?case unfolding u by (rule Cons.IH[OF lanesOK_step[OF Cons.prems] h])
qed

lemma laneLoop_dom:
  "dom (fst (laneLoop ex cs by sls y g)) = dom g \<union> id_storyline ` set sls"
  by (induction sls arbitrary: y g) (auto simp: Let_def)

lemma lanesOK_empty: "lanesOK ex cs by 0 Map.empty"
  by (simp add: lanesOK_def)

lemma colsOK_empty: "colsOK W PADDING_X Map.empty"
  by (simp add: colsOK_def)

subsection \<open>Day stacks\<close>

lemma eventHeight_bounds: "CAPSULE_HEIGHT \<le> eventHeight ex e" "0 < eventHeight ex e"
  by (simp_all add: eventHeight_def CAPSULE_HEIGHT_def EVENT_CARD_HEIGHT_def)

lemma gapAfter_ge: "SAME_DAY_VERTICAL_GAP \<le> gapAfter cs e n"
  by (simp add: gapAfter_def SAME_DAY_VERTICAL_GAP_def SAME_DAY_CONNECTED_EVENT_GAP_def)

lemma stackHeightOf_nonneg: "0 \<le> stackHeightOf ex cs evs"
proof (induction ex cs evs rule: stackHeightOf.induct)
  case (1 ex cs)
  show ?case by simp
next
  case (2 ex cs e)
  show ?case using eventHeight_bounds(2)[of ex e] by simp
next
  case (3 ex cs e n rest)
  show ?case
    using 3 eventHeight_bounds(2)[of ex e] gapAfter_ge[of cs e n]
    by (simp add: SAME_DAY_VERTICAL_GAP_def)
qed

lemma stackHeightOf_Cons:
  "stackHeightOf ex cs (e # rest) =
     eventHeight ex e + (case rest of [] \<Rightarrow> 0 | n # _ \<Rightarrow> gapAfter cs e n + stackHeightOf ex cs rest)"
  by (cases rest) simp_all

lemma stackHeightOf_tail: "stackHeightOf ex cs rest \<le> stackHeightOf ex cs (e # rest)"
proof (cases rest)
  case Nil
  then show ?thesis using eventHeight_bounds(2)[of ex e] by simp
next
  case (Cons n r)
  then show ?thesis
    using eventHeight_bounds(2)[of ex e] gapAfter_ge[of cs e n]
    by (simp add: SAME_DAY_VERTICAL_GAP_def)
qed

lemma stackHeightOf_head: "eventHeight ex e \<le> stackHeightOf ex cs (e # rest)"
proof (cases rest)
  case Nil
  then show ?thesis by simp
next
  case (Cons n r)
  then show ?thesis
    using stackHeightOf_nonneg[of ex cs rest] gapAfter_ge[of cs e n]
    by (simp add: SAME_DAY_VERTICAL_GAP_def)
qed

lemma stackHeightOf_sum:
  "sum_list (map (eventHeight ex) evs) \<le> stackHeightOf ex cs evs"
proof (induction ex cs evs rule: stackHeightOf.induct)
  case (1 ex cs)
  show ?case by simp
next
  case (2 ex cs e)
  show ?case by simp
next
  case (3 ex cs e n rest)
  show ?case using 3 gapAfter_ge[of cs e n] by (simp add: SAME_DAY_VERTICAL_GAP_def)
qed


lemma maxColumnHeightOf_fold_ge:
  "h \<le> foldl (\<lambda>maxColumnHeight (k, sameDayEvents).
              max maxColumnHeight (stackHeightOf ex cs sameDayEvents)) h dm"
proof (induction dm arbitrary: h)
  case Nil
  show ?case by simp
next
  case (Cons p dm)
  obtain dk evs where p: "p = (dk, evs)" by (cases p) auto
  show ?case using Cons.IH[of "max h (stackHeightOf ex cs evs)"] by (simp add: p)
qed

lemma maxColumnHeightOf_fold_member:
  "(dk, evs) \<in> set dm \<Longrightarrow>
   stackHeightOf ex cs evs
     \<le> foldl (\<lambda>maxColumnHeight (k, sameDayEvents).
              max maxColumnHeight (stackHeightOf ex cs sameDayEvents)) h dm"
proof (induction dm arbitrary: h)
  case Nil
  then show ?case by simp
next
  case (Cons p dm)
  obtain dk' evs' where p: "p = (dk', evs')" by (cases p) auto
  show ?case
  proof (cases "(dk, evs) = p")
    case True
    then have "stackHeightOf ex cs evs \<le> max h (stackHeightOf ex cs evs')" by (simp add: p)
    also have "\<dots> \<le> foldl (\<lambda>maxColumnHeight (k, sameDayEvents).
              max maxColumnHeight (stackHeightOf ex cs sameDayEvents))
              (max h (stackHeightOf ex cs evs')) dm"
      by (rule maxColumnHeightOf_fold_ge)
    finally show ?thesis by (simp add: p)
  next
    case False
    with Cons.prems have "(dk, evs) \<in> set dm" by simp
    from Cons.IH[OF this, of "max h (stackHeightOf ex cs evs')"] show ?thesis by (simp add: p)
  qed
qed

lemma laneHeightOf_stack:
  assumes "map_of by (id_storyline sl) = Some dm" "(dk, evs) \<in> set dm"
  shows "stackHeightOf ex cs evs + 2 * LANE_VERTICAL_PADDING \<le> laneHeightOf ex cs by sl"
  using maxColumnHeightOf_fold_member[OF assms(2), of ex cs 0]
  unfolding laneHeightOf_def maxColumnHeightOf_def assms(1)
  by (simp add: Let_def)

text \<open>Every slot of a stack lies between the start of the stack and its nominal end.\<close>

lemma stackSlots_bounds:
  assumes "l \<in> set (stackSlots T L ex cs sl bx evs y0)"
  shows "y0 \<le> y_layout l \<and> y_layout l + height_layout l \<le> y0 + stackHeightOf ex cs evs"
  using assms
proof (induction evs arbitrary: y0)
  case Nil
  then show ?case by simp
next
  case (Cons e rest)
  show ?case
  proof (cases "find (\<lambda>et. Some (id_type et) = typeId e) T")
    case None
    with Cons.prems have "l \<in> set (stackSlots T L ex cs sl bx rest y0)" by simp
    from Cons.IH[OF this] stackHeightOf_tail[of ex cs rest e] show ?thesis by simp
  next
    case (Some et)
    let ?g = "case rest of [] \<Rightarrow> SAME_DAY_VERTICAL_GAP | n # _ \<Rightarrow> gapAfter cs e n"
    from Cons.prems Some consider
      (hd) "y_layout l = y0" "height_layout l = eventHeight ex e"
      | (tl) "l \<in> set (stackSlots T L ex cs sl bx rest (y0 + eventHeight ex e + ?g))"
      by auto
    then show ?thesis
    proof cases
      case hd
      then show ?thesis
        using stackHeightOf_head[of ex e cs rest] eventHeight_bounds(2)[of ex e] by simp
    next
      case tl
      then obtain n r where rest: "rest = n # r" by (cases rest) auto
      from Cons.IH[OF tl] show ?thesis
        using eventHeight_bounds(2)[of ex e] gapAfter_ge[of cs e n]
        by (simp add: rest SAME_DAY_VERTICAL_GAP_def)
    qed
  qed
qed

lemma stackSlots_fields:
  assumes "l \<in> set (stackSlots T L ex cs sl bx evs y0)"
  shows "event_layout l \<in> set evs"
    and "x_layout l = bx + real (indentationLevel L (event_layout l)) * INDENTATION_STEP"
    and "width_layout l = EVENT_WIDTH"
    and "height_layout l = eventHeight ex (event_layout l)"
    and "storyline_layout l = sl"
    and "find (\<lambda>et. Some (id_type et) = typeId (event_layout l)) T = Some (eventType_layout l)"
  using assms
  by (induction evs arbitrary: y0; auto split: option.splits)+

text \<open>
  Two slots of one stack are the same slot or lie one under the other with the
  same-day gap between them. The storyline stored in the slot plays no part.
\<close>

lemma stackSlots_separated:
  assumes "a \<in> set (stackSlots T L ex cs sl bx evs y0)"
    and "b \<in> set (stackSlots T L ex cs sl' bx evs y0)"
  shows "event_layout a = event_layout b \<and> y_layout a = y_layout b \<or>
         y_layout a + height_layout a + SAME_DAY_VERTICAL_GAP \<le> y_layout b \<or>
         y_layout b + height_layout b + SAME_DAY_VERTICAL_GAP \<le> y_layout a"
  using assms
proof (induction evs arbitrary: y0)
  case Nil
  then show ?case by simp
next
  case (Cons e rest)
  show ?case
  proof (cases "find (\<lambda>et. Some (id_type et) = typeId e) T")
    case None
    with Cons.prems Cons.IH[of y0] show ?thesis by simp
  next
    case (Some et)
    let ?g = "case rest of [] \<Rightarrow> SAME_DAY_VERTICAL_GAP | n # _ \<Rightarrow> gapAfter cs e n"
    let ?y = "y0 + eventHeight ex e + ?g"
    have g: "SAME_DAY_VERTICAL_GAP \<le> ?g"
      using gapAfter_ge[of cs e] by (cases rest) simp_all
    have ha: "(event_layout a = e \<and> y_layout a = y0 \<and> height_layout a = eventHeight ex e) \<or>
              a \<in> set (stackSlots T L ex cs sl bx rest ?y)"
      using Cons.prems(1) Some by auto
    have hb: "(event_layout b = e \<and> y_layout b = y0 \<and> height_layout b = eventHeight ex e) \<or>
              b \<in> set (stackSlots T L ex cs sl' bx rest ?y)"
      using Cons.prems(2) Some by auto
    show ?thesis
    proof (cases "a \<in> set (stackSlots T L ex cs sl bx rest ?y)")
      case ta: True
      show ?thesis
      proof (cases "b \<in> set (stackSlots T L ex cs sl' bx rest ?y)")
        case True
        from Cons.IH[OF ta True] show ?thesis .
      next
        case False
        with hb have b0: "y_layout b = y0" "height_layout b = eventHeight ex e" by auto
        from stackSlots_bounds[OF ta] have "?y \<le> y_layout a" by simp
        then show ?thesis using b0 g by simp
      qed
    next
      case fa: False
      with ha have a0: "event_layout a = e" "y_layout a = y0" "height_layout a = eventHeight ex e"
        by auto
      show ?thesis
      proof (cases "b \<in> set (stackSlots T L ex cs sl' bx rest ?y)")
        case True
        from stackSlots_bounds[OF True] have "?y \<le> y_layout b" by simp
        then show ?thesis using a0 g by simp
      next
        case False
        with hb show ?thesis using a0 by auto
      qed
    qed
  qed
qed

section \<open>Which events receive a rectangle, and where\<close>

lemma laneGeometries_ok:
  "lanesOK (expandedEvents inp) (eventConnections inp) (eventsByStorylineAndDay inp)
     (snd (laneLoop (expandedEvents inp) (eventConnections inp) (eventsByStorylineAndDay inp)
             (storylines inp) 0 Map.empty))
     (laneGeometries inp)"
  unfolding laneGeometries_def by (rule laneLoop_inv[OF lanesOK_empty]) simp

lemma dom_laneGeometries: "dom (laneGeometries inp) = id_storyline ` set (storylines inp)"
  unfolding laneGeometries_def by (simp add: laneLoop_dom)

lemma laneGeometries_height:
  assumes "laneGeometries inp sid = Some lane"
  shows "height_lane lane =
           laneHeightOf (expandedEvents inp) (eventConnections inp) (eventsByStorylineAndDay inp)
             \<lparr>id_storyline = sid\<rparr>"
  using laneGeometries_ok[of inp] assms unfolding lanesOK_def by blast

lemma laneGeometries_disjoint:
  assumes "laneGeometries inp s1 = Some l1" "laneGeometries inp s2 = Some l2" "s1 \<noteq> s2"
  shows "y_lane l1 + height_lane l1 \<le> y_lane l2 \<or> y_lane l2 + height_lane l2 \<le> y_lane l1"
  using laneGeometries_ok[of inp] assms unfolding lanesOK_def by blast

lemma distinct_eventsByDay: "distinct (map fst (eventsByDay inp))"
  unfolding eventsByDay_def by (rule distinct_groupByDay)

lemma dayColumnGeometries_ok:
  "colsOK (dayColumnContentWidths inp)
     (snd (columnLoop (dayColumnContentWidths inp) (sortedUniqueDays inp) PADDING_X Map.empty))
     (dayColumnGeometries inp)"
  unfolding dayColumnGeometries_def
proof (rule columnLoop_inv[OF colsOK_empty])
  show "PADDING_X \<le> PADDING_X" by simp
  show "0 \<le> contentWidthOf (dayColumnContentWidths inp) k" for k
    using contentWidthOf_ge[OF distinct_eventsByDay, of inp "eventIndentationLevels inp" k]
    unfolding dayColumnContentWidths_def by (simp add: EVENT_WIDTH_def)
qed

lemma dayColumnGeometries_width:
  assumes "dayColumnGeometries inp k = Some c"
  shows "width_column c = contentWidthOf (dayColumnContentWidths inp) k"
    and "PADDING_X \<le> x_column c"
  using dayColumnGeometries_ok[of inp] assms unfolding colsOK_def by blast+

lemma dayColumnGeometries_disjoint:
  assumes "dayColumnGeometries inp k1 = Some c1" "dayColumnGeometries inp k2 = Some c2" "k1 \<noteq> k2"
  shows "x_column c1 + width_column c1 + EVENT_GAP \<le> x_column c2 \<or>
         x_column c2 + width_column c2 + EVENT_GAP \<le> x_column c1"
  using dayColumnGeometries_ok[of inp] assms unfolding colsOK_def by blast

lemma dayStack_member:
  "e \<in> set (dayStack inp sid dk) \<longleftrightarrow>
     e \<in> set (events inp) \<and> isComplete e \<and> storylineId e = Some sid \<and> getDayKey (date e) = dk"
  by (auto simp: dayStack_def set_sortedEvents)

lemma dayStack_entry:
  assumes "map_of (eventsByStorylineAndDay inp) sid = Some dm" "(dk, evs) \<in> set dm"
  shows "evs = dayStack inp sid dk"
proof -
  from assms(1) have "dm = groupByDay (filter (\<lambda>e. storylineId e = Some sid) (sortedEvents inp))"
    by (simp add: map_of_eventsByStorylineAndDay split: if_splits)
  with assms(2) show ?thesis
    unfolding dayStack_def using groupByDay_entry(1) by blast
qed

lemma dayStack_present:
  assumes "e \<in> set (events inp)" "isComplete e" "storylineId e = Some sid"
    and "sid \<in> id_storyline ` set (storylines inp)"
  shows "\<exists>dm. map_of (eventsByStorylineAndDay inp) sid = Some dm \<and>
              map_of dm (getDayKey (date e)) = Some (dayStack inp sid (getDayKey (date e)))"
proof -
  let ?f = "filter (\<lambda>e. storylineId e = Some sid) (sortedEvents inp)"
  have m: "map_of (eventsByStorylineAndDay inp) sid = Some (groupByDay ?f)"
    using assms(4) by (simp add: map_of_eventsByStorylineAndDay)
  have "e \<in> set ?f" using assms(1-3) by (simp add: set_sortedEvents)
  then have "filter (\<lambda>x. getDayKey (date x) = getDayKey (date e)) ?f \<noteq> []"
    by (auto simp: filter_empty_conv)
  then have "map_of (groupByDay ?f) (getDayKey (date e)) = Some (dayStack inp sid (getDayKey (date e)))"
    by (simp add: map_of_groupByDay dayStack_def)
  with m show ?thesis by blast
qed

text \<open>
  Every entry of \<open>eventLayouts\<close> is a slot of the day stack of its event, in the lane of an
  existing storyline and in the column of its day, and is stored under the id of its
  event.
\<close>

lemma eventLayouts_placed:
  assumes "eventLayouts inp i = Some l"
  shows "\<exists>sl lane col.
           sl \<in> set (storylines inp) \<and>
           storylineId (event_layout l) = Some (id_storyline sl) \<and>
           laneGeometries inp (id_storyline sl) = Some lane \<and>
           dayColumnGeometries inp (getDayKey (date (event_layout l))) = Some col \<and>
           l \<in> set (stackSlots (eventTypes inp) (eventIndentationLevels inp) (expandedEvents inp)
                      (eventConnections inp) sl (x_column col)
                      (dayStack inp (id_storyline sl) (getDayKey (date (event_layout l))))
                      (stackStart (expandedEvents inp) (eventConnections inp) lane
                         (dayStack inp (id_storyline sl) (getDayKey (date (event_layout l)))))) \<and>
           id_event (event_layout l) = i"
proof -
  from allSlots_member[OF eventLayouts_slot(1)[OF assms]]
  obtain sl lane dm dk evs col where sl: "sl \<in> set (storylines inp)"
    and lane: "laneGeometries inp (id_storyline sl) = Some lane"
    and dm: "map_of (eventsByStorylineAndDay inp) (id_storyline sl) = Some dm"
    and de: "(dk, evs) \<in> set dm"
    and col: "dayColumnGeometries inp dk = Some col"
    and l: "l \<in> set (stackSlots (eventTypes inp) (eventIndentationLevels inp) (expandedEvents inp)
                      (eventConnections inp) sl (x_column col) evs
                      (stackStart (expandedEvents inp) (eventConnections inp) lane evs))"
    by blast
  have evs: "evs = dayStack inp (id_storyline sl) dk" by (rule dayStack_entry[OF dm de])
  from stackSlots_fields(1)[OF l] have "event_layout l \<in> set (dayStack inp (id_storyline sl) dk)"
    by (simp add: evs)
  then have k: "getDayKey (date (event_layout l)) = dk"
    and s: "storylineId (event_layout l) = Some (id_storyline sl)"
    by (simp_all add: dayStack_member)
  show ?thesis
    using sl s lane col l eventLayouts_slot(2)[OF assms] unfolding k evs by blast
qed




section \<open>A worked example\<close>

text \<open>
  The layout of the example timeline, computed step by step: three events on two days
  in two storylines, the second one expanded.
\<close>

lemma example_keys:
  "normalizeDate (lit ''2024-01-01'') [] = Num 1704067200000"
  "normalizeDate (lit ''2024-01-01 08:00:00'') [] = Num 1704096000000"
  "normalizeDate (lit ''2024-01-02'') [] = Num 1704153600000"
proof -
  have f1: "gregorianForm (lit ''2024-01-01'') 2024 1 1 0 0 0" by (simp add: form_eval)
  have f2: "gregorianForm (lit ''2024-01-01 08:00:00'') 2024 1 1 8 0 0" by (simp add: form_eval)
  have f3: "gregorianForm (lit ''2024-01-02'') 2024 1 2 0 0 0" by (simp add: form_eval)
  have v1: "validFields 2024 1 1 0 0 0" by (simp add: validFields_def daysInMonth_def)
  have v2: "validFields 2024 1 1 8 0 0" by (simp add: validFields_def daysInMonth_def)
  have v3: "validFields 2024 1 2 0 0 0" by (simp add: validFields_def daysInMonth_def)
  show "normalizeDate (lit ''2024-01-01'') [] = Num 1704067200000"
    unfolding gregorian_key[OF f1] DateUTC_valid[OF v1]
    by (simp add: dayNumber_def DayFromYear_def monthStart_def)
  show "normalizeDate (lit ''2024-01-01 08:00:00'') [] = Num 1704096000000"
    unfolding gregorian_key[OF f2] DateUTC_valid[OF v2]
    by (simp add: dayNumber_def DayFromYear_def monthStart_def)
  show "normalizeDate (lit ''2024-01-02'') [] = Num 1704153600000"
    unfolding gregorian_key[OF f3] DateUTC_valid[OF v3]
    by (simp add: dayNumber_def DayFromYear_def monthStart_def)
qed

lemma example_order:
  "\<not> jspositive (jssub (Num 1704067200000) (Num 1704096000000))"
  "\<not> jspositive (jssub (Num 1704096000000) (Num 1704153600000))"
  "\<not> jspositive (jssub (Num 1704067200000) (Num 1704153600000))"
  using toDouble_int[of "- 28800000"] toDouble_int[of "- 57600000"] toDouble_int[of "- 86400000"]
  by (simp_all add: jspositive_def jssub_def)

lemma example_dayKeys:
  "getDayKey (lit ''2024-01-01'') = lit ''2024-01-01''"
  "getDayKey (lit ''2024-01-01 08:00:00'') = lit ''2024-01-01''"
  "getDayKey (lit ''2024-01-02'') = lit ''2024-01-02''"
  by (simp_all add: getDayKey_def lit_def trim_def isWhiteSpace_def matchBCDay_def bcPrefix_def
        matchGregorianDay_def isDigit_def)

lemma lit_eq_Nil: "lit s = [] \<longleftrightarrow> s = []"
  by (simp add: lit_def)

lemma lit_eq_iff: "lit a = lit b \<longleftrightarrow> a = b"
  unfolding lit_def by (rule inj_map_eq_map) (rule inj_of_char)

lemma example_sortedEvents:
  "sortedEvents exampleTimeline = events exampleTimeline"
  by (simp add: sortedEvents_def sortedEventsOf_def sortBy_def exampleTimeline_def
        isComplete_def truthy_def mkEvent_def example_keys example_order lit_eq_Nil)

lemma example_eventsByDay:
  "eventsByDay exampleTimeline =
     [(lit ''2024-01-01'', [mkEvent ''e1'' ''2024-01-01'' ''s1'' ''t1'',
                           mkEvent ''e2'' ''2024-01-01 08:00:00'' ''s1'' ''t1'']),
      (lit ''2024-01-02'', [mkEvent ''e3'' ''2024-01-02'' ''s2'' ''t1''])]"
  unfolding eventsByDay_def example_sortedEvents
  by (simp add: exampleTimeline_def groupByDay_def pushTo_def mkEvent_def example_dayKeys
        lit_eq_iff)

lemma example_sortedUniqueDays:
  "sortedUniqueDays exampleTimeline = [lit ''2024-01-01'', lit ''2024-01-02'']"
  unfolding sortedUniqueDays_def example_eventsByDay
  by (simp add: sortedUniqueDaysOf_def sortBy_def firstDateOf_def mkEvent_def lit_eq_iff
        exampleTimeline_def example_keys example_order)

lemma example_levels:
  "eventIndentationLevels exampleTimeline (lit ''e1'') = Some 0"
  "eventIndentationLevels exampleTimeline (lit ''e2'') = Some 1"
  "eventIndentationLevels exampleTimeline (lit ''e3'') = Some 0"
  unfolding eventIndentationLevels_def example_eventsByDay
  by (simp_all add: eventIndentationLevelsOf_def setLevels_def mkEvent_def lit_eq_iff)


lemma example_widths:
  "dayColumnContentWidths exampleTimeline (lit ''2024-01-01'') = Some 220"
  "dayColumnContentWidths exampleTimeline (lit ''2024-01-02'') = Some 200"
  unfolding dayColumnContentWidths_def example_eventsByDay
  by (simp_all add: dayColumnContentWidthsOf_def maxEventWidthOf_def indentationLevel_def
        example_levels mkEvent_def lit_eq_iff MAX_INDENTATION_LEVEL_def INDENTATION_STEP_def
        EVENT_WIDTH_def Let_def)

lemma example_columns:
  "dayColumnGeometries exampleTimeline (lit ''2024-01-01'') = Some \<lparr>x_column = 20, width_column = 220\<rparr>"
  "dayColumnGeometries exampleTimeline (lit ''2024-01-02'') = Some \<lparr>x_column = 320, width_column = 200\<rparr>"
  unfolding dayColumnGeometries_def example_sortedUniqueDays
  by (simp_all add: example_widths lit_eq_iff PADDING_X_def EVENT_GAP_def Let_def)

lemma example_byStoryline:
  "eventsByStorylineAndDay exampleTimeline =
     [(lit ''s1'', [(lit ''2024-01-01'', [mkEvent ''e1'' ''2024-01-01'' ''s1'' ''t1'',
                                         mkEvent ''e2'' ''2024-01-01 08:00:00'' ''s1'' ''t1''])]),
      (lit ''s2'', [(lit ''2024-01-02'', [mkEvent ''e3'' ''2024-01-02'' ''s2'' ''t1''])])]"
  unfolding eventsByStorylineAndDay_def example_sortedEvents
  by (simp add: exampleTimeline_def eventsByStorylineAndDayOf_def initStorylineMaps_def
        addToStoryline_def pushTo_def mkEvent_def example_dayKeys lit_eq_iff)

lemma example_lanes:
  "laneGeometries exampleTimeline (lit ''s1'') = Some \<lparr>y_lane = 0, height_lane = 225\<rparr>"
  "laneGeometries exampleTimeline (lit ''s2'') = Some \<lparr>y_lane = 225, height_lane = 80\<rparr>"
  unfolding laneGeometries_def example_byStoryline
  by (simp_all add: exampleTimeline_def laneHeightOf_def maxColumnHeightOf_def eventHeight_def
        gapAfter_def isConnected_def mkEvent_def lit_eq_iff MIN_LANE_HEIGHT_def
        CAPSULE_HEIGHT_def EVENT_CARD_HEIGHT_def LANE_VERTICAL_PADDING_def
        SAME_DAY_VERTICAL_GAP_def Let_def)

lemma example_layouts:
  "eventLayouts exampleTimeline (lit ''e1'') =
     Some \<lparr>x_layout = 20, y_layout = 20, width_layout = 200, height_layout = 40,
           event_layout = mkEvent ''e1'' ''2024-01-01'' ''s1'' ''t1'',
           storyline_layout = \<lparr>id_storyline = lit ''s1''\<rparr>,
           eventType_layout = \<lparr>id_type = lit ''t1''\<rparr>\<rparr>"
  "eventLayouts exampleTimeline (lit ''e2'') =
     Some \<lparr>x_layout = 40, y_layout = 85, width_layout = 200, height_layout = 120,
           event_layout = mkEvent ''e2'' ''2024-01-01 08:00:00'' ''s1'' ''t1'',
           storyline_layout = \<lparr>id_storyline = lit ''s1''\<rparr>,
           eventType_layout = \<lparr>id_type = lit ''t1''\<rparr>\<rparr>"
  "eventLayouts exampleTimeline (lit ''e3'') =
     Some \<lparr>x_layout = 320, y_layout = 245, width_layout = 200, height_layout = 40,
           event_layout = mkEvent ''e3'' ''2024-01-02'' ''s2'' ''t1'',
           storyline_layout = \<lparr>id_storyline = lit ''s2''\<rparr>,
           eventType_layout = \<lparr>id_type = lit ''t1''\<rparr>\<rparr>"
  unfolding eventLayouts_def example_byStoryline
  by (simp_all add: exampleTimeline_def[THEN arg_cong, of storylines]
        exampleTimeline_def[THEN arg_cong, of eventTypes]
        exampleTimeline_def[THEN arg_cong, of expandedEvents]
        exampleTimeline_def[THEN arg_cong, of eventConnections]
        example_lanes example_columns example_levels indentationLevel_def eventHeight_def
        gapAfter_def isConnected_def mkEvent_def lit_eq_iff
        CAPSULE_HEIGHT_def EVENT_CARD_HEIGHT_def SAME_DAY_VERTICAL_GAP_def
        MAX_INDENTATION_LEVEL_def INDENTATION_STEP_def EVENT_WIDTH_def Let_def)

subsection \<open>Events with a dangling storyline or type reference\<close>



subsection \<open>Rectangles do not overlap\<close>

text \<open>The stack of a rectangle's event lies in the lane of its storyline, centred.\<close>

lemma stack_in_lane:
  assumes e: "e \<in> set (events inp)" "isComplete e" "storylineId e = Some sid"
    and lane: "laneGeometries inp sid = Some lane"
  shows "y_lane lane + LANE_VERTICAL_PADDING
           \<le> stackStart (expandedEvents inp) (eventConnections inp) lane
                (dayStack inp sid (getDayKey (date e)))"
    and "stackStart (expandedEvents inp) (eventConnections inp) lane
           (dayStack inp sid (getDayKey (date e))) +
         stackHeightOf (expandedEvents inp) (eventConnections inp)
           (dayStack inp sid (getDayKey (date e))) + LANE_VERTICAL_PADDING
           \<le> y_lane lane + height_lane lane"
proof -
  let ?st = "dayStack inp sid (getDayKey (date e))"
  let ?H = "stackHeightOf (expandedEvents inp) (eventConnections inp) ?st"
  have s: "sid \<in> id_storyline ` set (storylines inp)"
    using lane dom_laneGeometries[of inp] by blast
  from dayStack_present[OF e s] obtain dm
    where dm: "map_of (eventsByStorylineAndDay inp) sid = Some dm"
      and st: "map_of dm (getDayKey (date e)) = Some ?st" by blast
  have "(getDayKey (date e), ?st) \<in> set dm" using st by (rule map_of_SomeD)
  from laneHeightOf_stack[of "eventsByStorylineAndDay inp" "\<lparr>id_storyline = sid\<rparr>" dm
         "getDayKey (date e)" ?st "expandedEvents inp" "eventConnections inp"] dm this
  have h: "?H + 2 * LANE_VERTICAL_PADDING \<le> height_lane lane"
    by (simp add: laneGeometries_height[OF lane])
  show "y_lane lane + LANE_VERTICAL_PADDING
           \<le> stackStart (expandedEvents inp) (eventConnections inp) lane ?st"
    using h by (simp add: stackStart_def LANE_VERTICAL_PADDING_def)
  show "stackStart (expandedEvents inp) (eventConnections inp) lane ?st + ?H + LANE_VERTICAL_PADDING
           \<le> y_lane lane + height_lane lane"
    using h by (simp add: stackStart_def LANE_VERTICAL_PADDING_def field_simps)
qed

lemma layout_inside_lane:
  assumes "eventLayouts inp i = Some l"
  shows "\<exists>lane. laneOf inp l = Some lane \<and> insideLane lane l"
proof -
  from eventLayouts_placed[OF assms] obtain sl lane col where sl: "sl \<in> set (storylines inp)"
    and s: "storylineId (event_layout l) = Some (id_storyline sl)"
    and lane: "laneGeometries inp (id_storyline sl) = Some lane"
    and col: "dayColumnGeometries inp (getDayKey (date (event_layout l))) = Some col"
    and l: "l \<in> set (stackSlots (eventTypes inp) (eventIndentationLevels inp) (expandedEvents inp)
                      (eventConnections inp) sl (x_column col)
                      (dayStack inp (id_storyline sl) (getDayKey (date (event_layout l))))
                      (stackStart (expandedEvents inp) (eventConnections inp) lane
                         (dayStack inp (id_storyline sl) (getDayKey (date (event_layout l))))))"
    and i: "id_event (event_layout l) = i"
    by (elim exE conjE)
  from stackSlots_fields(1)[OF l]
  have e: "event_layout l \<in> set (events inp)" "isComplete (event_layout l)"
    by (simp_all add: dayStack_member)
  note b = stackSlots_bounds[OF l]
  note c = stack_in_lane[OF e s lane]
  have "insideLane lane l" unfolding insideLane_def using b c by linarith
  moreover have "laneOf inp l = Some lane" by (simp add: laneOf_def s lane)
  ultimately show ?thesis by blast
qed

lemma layout_inside_column:
  assumes "eventLayouts inp i = Some l"
  shows "\<exists>col. dayColumnGeometries inp (dayKeyOf l) = Some col \<and>
               x_column col \<le> x_layout l \<and>
               x_layout l + width_layout l \<le> x_column col + width_column col"
proof -
  from eventLayouts_placed[OF assms] obtain sl lane col where sl: "sl \<in> set (storylines inp)"
    and s: "storylineId (event_layout l) = Some (id_storyline sl)"
    and lane: "laneGeometries inp (id_storyline sl) = Some lane"
    and col: "dayColumnGeometries inp (getDayKey (date (event_layout l))) = Some col"
    and l: "l \<in> set (stackSlots (eventTypes inp) (eventIndentationLevels inp) (expandedEvents inp)
                      (eventConnections inp) sl (x_column col)
                      (dayStack inp (id_storyline sl) (getDayKey (date (event_layout l))))
                      (stackStart (expandedEvents inp) (eventConnections inp) lane
                         (dayStack inp (id_storyline sl) (getDayKey (date (event_layout l))))))"
    and i: "id_event (event_layout l) = i"
    by (elim exE conjE)
  let ?e = "event_layout l"
  let ?dk = "getDayKey (date ?e)"
  from stackSlots_fields(1)[OF l] have es: "?e \<in> set (sortedEvents inp)"
    by (simp add: dayStack_def)
  then have ne: "filter (\<lambda>x. getDayKey (date x) = ?dk) (sortedEvents inp) \<noteq> []"
    by (auto simp: filter_empty_conv)
  have m: "map_of (eventsByDay inp) ?dk =
        Some (filter (\<lambda>x. getDayKey (date x) = ?dk) (sortedEvents inp))"
    unfolding eventsByDay_def map_of_groupByDay using ne by simp
  have mem: "?e \<in> set (filter (\<lambda>x. getDayKey (date x) = ?dk) (sortedEvents inp))"
    using es by simp
  from contentWidthOf_member[OF distinct_eventsByDay m mem, of "eventIndentationLevels inp"]
  have w: "real (indentationLevel (eventIndentationLevels inp) ?e) * INDENTATION_STEP + EVENT_WIDTH
         \<le> width_column col"
    unfolding dayColumnGeometries_width(1)[OF col] dayColumnContentWidths_def .
  have x: "x_layout l = x_column col +
             real (indentationLevel (eventIndentationLevels inp) ?e) * INDENTATION_STEP"
    by (rule stackSlots_fields(2)[OF l])
  have wl: "width_layout l = EVENT_WIDTH" by (rule stackSlots_fields(3)[OF l])
  have "0 \<le> real (indentationLevel (eventIndentationLevels inp) ?e) * INDENTATION_STEP"
    by (simp add: INDENTATION_STEP_def)
  then have "x_column col \<le> x_layout l \<and> x_layout l + width_layout l \<le> x_column col + width_column col"
    using w x wl by linarith
  then show ?thesis using col unfolding dayKeyOf_def by blast
qed

lemma same_stack_separated:
  assumes a: "eventLayouts inp i = Some a" and b: "eventLayouts inp j = Some b" and ij: "i \<noteq> j"
    and day: "dayKeyOf a = dayKeyOf b"
    and sl: "storylineId (event_layout a) = storylineId (event_layout b)"
  shows "y_layout a + height_layout a + SAME_DAY_VERTICAL_GAP \<le> y_layout b \<or>
         y_layout b + height_layout b + SAME_DAY_VERTICAL_GAP \<le> y_layout a"
proof -
  from eventLayouts_placed[OF a] obtain sa la ca where
        sa: "storylineId (event_layout a) = Some (id_storyline sa)"
    and la: "laneGeometries inp (id_storyline sa) = Some la"
    and ca: "dayColumnGeometries inp (getDayKey (date (event_layout a))) = Some ca"
    and ma: "a \<in> set (stackSlots (eventTypes inp) (eventIndentationLevels inp) (expandedEvents inp)
                      (eventConnections inp) sa (x_column ca)
                      (dayStack inp (id_storyline sa) (getDayKey (date (event_layout a))))
                      (stackStart (expandedEvents inp) (eventConnections inp) la
                         (dayStack inp (id_storyline sa) (getDayKey (date (event_layout a))))))"
    and ia: "id_event (event_layout a) = i"
    by (elim exE conjE)
  from eventLayouts_placed[OF b] obtain sb lb cb where
        sb: "storylineId (event_layout b) = Some (id_storyline sb)"
    and lb: "laneGeometries inp (id_storyline sb) = Some lb"
    and cb: "dayColumnGeometries inp (getDayKey (date (event_layout b))) = Some cb"
    and mb: "b \<in> set (stackSlots (eventTypes inp) (eventIndentationLevels inp) (expandedEvents inp)
                      (eventConnections inp) sb (x_column cb)
                      (dayStack inp (id_storyline sb) (getDayKey (date (event_layout b))))
                      (stackStart (expandedEvents inp) (eventConnections inp) lb
                         (dayStack inp (id_storyline sb) (getDayKey (date (event_layout b))))))"
    and ib: "id_event (event_layout b) = j"
    by (elim exE conjE)
  have k: "getDayKey (date (event_layout b)) = getDayKey (date (event_layout a))"
    using day by (simp add: dayKeyOf_def)
  have s: "id_storyline sb = id_storyline sa" using sl sa sb by simp
  have l: "lb = la" using la lb s by simp
  have c: "cb = ca" using ca cb k by simp
  from stackSlots_separated[OF ma mb[unfolded k s l c]] ia ib ij
  show ?thesis by auto
qed

lemma layout_in_centred_stack:
  assumes "eventLayouts inp i = Some l"
  shows "\<exists>lane. laneOf inp l = Some lane \<and>
           y_lane lane + LANE_VERTICAL_PADDING \<le> stackTop inp lane l \<and>
           stackTop inp lane l \<le> y_layout l \<and>
           y_layout l + height_layout l \<le> stackBottom inp lane l \<and>
           stackBottom inp lane l + LANE_VERTICAL_PADDING \<le> y_lane lane + height_lane lane \<and>
           stackTop inp lane l - y_lane lane =
             y_lane lane + height_lane lane - stackBottom inp lane l"
proof -
  from eventLayouts_placed[OF assms] obtain sl lane col where sl: "sl \<in> set (storylines inp)"
    and s: "storylineId (event_layout l) = Some (id_storyline sl)"
    and lane: "laneGeometries inp (id_storyline sl) = Some lane"
    and col: "dayColumnGeometries inp (getDayKey (date (event_layout l))) = Some col"
    and l: "l \<in> set (stackSlots (eventTypes inp) (eventIndentationLevels inp) (expandedEvents inp)
                      (eventConnections inp) sl (x_column col)
                      (dayStack inp (id_storyline sl) (getDayKey (date (event_layout l))))
                      (stackStart (expandedEvents inp) (eventConnections inp) lane
                         (dayStack inp (id_storyline sl) (getDayKey (date (event_layout l))))))"
    and i: "id_event (event_layout l) = i"
    by (elim exE conjE)
  have so: "stackOf inp l = dayStack inp (id_storyline sl) (getDayKey (date (event_layout l)))"
    by (simp add: stackOf_def s dayKeyOf_def)
  from stackSlots_fields(1)[OF l]
  have e: "event_layout l \<in> set (events inp)" "isComplete (event_layout l)"
    by (simp_all add: dayStack_member)
  note b = stackSlots_bounds[OF l]
  note c = stack_in_lane[OF e s lane]
  have lo: "laneOf inp l = Some lane" by (simp add: laneOf_def s lane)
  have ce: "stackTop inp lane l - y_lane lane =
             y_lane lane + height_lane lane - stackBottom inp lane l"
    by (simp add: stackTop_def stackBottom_def stackStart_def field_simps)
  show ?thesis
    using lo b c ce unfolding stackTop_def stackBottom_def so by blast
qed

text \<open>
  Claim C1. Two entries of \<open>eventLayouts\<close> under different ids never overlap. If their events
  share the day key and the storyline, one lies below the other with at least the
  same-day gap (25) between them. If their day keys differ, their horizontal extents are
  disjoint, with at least the column gap (80) between them. Each of the two lies in the
  lane of its storyline, inside its day stack, which is vertically centred in the lane
  and keeps the lane padding (20) to both lane borders; the lanes of different
  storylines are disjoint bands.

  Coordinates are the numbers of the code: sums of the integer layout constants and
  halves of such sums, on which binary64 arithmetic is exact.
\<close>

theorem rectangles_do_not_overlap:
  assumes "eventLayouts inp i = Some a" and "eventLayouts inp j = Some b" and "i \<noteq> j"
  shows "\<not> overlaps a b \<and>
         (dayKeyOf a = dayKeyOf b \<and>
          storylineId (event_layout a) = storylineId (event_layout b) \<longrightarrow>
            y_layout a + height_layout a + SAME_DAY_VERTICAL_GAP \<le> y_layout b \<or>
            y_layout b + height_layout b + SAME_DAY_VERTICAL_GAP \<le> y_layout a) \<and>
         (dayKeyOf a \<noteq> dayKeyOf b \<longrightarrow>
            x_layout a + width_layout a + EVENT_GAP \<le> x_layout b \<or>
            x_layout b + width_layout b + EVENT_GAP \<le> x_layout a) \<and>
         (\<exists>la lb.
            laneOf inp a = Some la \<and> laneOf inp b = Some lb \<and>
            insideLane la a \<and> insideLane lb b \<and>
            (storylineId (event_layout a) \<noteq> storylineId (event_layout b) \<longrightarrow>
               lanesDisjoint la lb) \<and>
            y_lane la + LANE_VERTICAL_PADDING \<le> stackTop inp la a \<and>
            stackTop inp la a \<le> y_layout a \<and>
            y_layout a + height_layout a \<le> stackBottom inp la a \<and>
            stackBottom inp la a + LANE_VERTICAL_PADDING \<le> y_lane la + height_lane la \<and>
            stackTop inp la a - y_lane la = y_lane la + height_lane la - stackBottom inp la a)"
proof -
  from layout_in_centred_stack[OF assms(1)] obtain la where
    la: "laneOf inp a = Some la"
    and sa: "y_lane la + LANE_VERTICAL_PADDING \<le> stackTop inp la a"
      "stackTop inp la a \<le> y_layout a"
      "y_layout a + height_layout a \<le> stackBottom inp la a"
      "stackBottom inp la a + LANE_VERTICAL_PADDING \<le> y_lane la + height_lane la"
      "stackTop inp la a - y_lane la = y_lane la + height_lane la - stackBottom inp la a"
    by (elim exE conjE)
  from layout_inside_lane[OF assms(1)] la have ia: "insideLane la a" by auto
  from layout_inside_lane[OF assms(2)] obtain lb where
    lb: "laneOf inp b = Some lb" and ib: "insideLane lb b" by blast
  have same: "y_layout a + height_layout a + SAME_DAY_VERTICAL_GAP \<le> y_layout b \<or>
              y_layout b + height_layout b + SAME_DAY_VERTICAL_GAP \<le> y_layout a"
    if "dayKeyOf a = dayKeyOf b" "storylineId (event_layout a) = storylineId (event_layout b)"
    using same_stack_separated[OF assms that] .
  have days: "x_layout a + width_layout a + EVENT_GAP \<le> x_layout b \<or>
              x_layout b + width_layout b + EVENT_GAP \<le> x_layout a"
    if d: "dayKeyOf a \<noteq> dayKeyOf b"
  proof -
    from layout_inside_column[OF assms(1)] obtain ca where
      ca: "dayColumnGeometries inp (dayKeyOf a) = Some ca" "x_column ca \<le> x_layout a"
        "x_layout a + width_layout a \<le> x_column ca + width_column ca"
      by blast
    from layout_inside_column[OF assms(2)] obtain cb where
      cb: "dayColumnGeometries inp (dayKeyOf b) = Some cb" "x_column cb \<le> x_layout b"
        "x_layout b + width_layout b \<le> x_column cb + width_column cb"
      by blast
    from dayColumnGeometries_disjoint[OF ca(1) cb(1) d] ca(2,3) cb(2,3)
    show ?thesis by linarith
  qed
  have lanes: "lanesDisjoint la lb"
    if d: "storylineId (event_layout a) \<noteq> storylineId (event_layout b)"
  proof -
    from la obtain s1 where s1: "storylineId (event_layout a) = Some s1"
      "laneGeometries inp s1 = Some la"
      by (auto simp: laneOf_def split: option.splits)
    from lb obtain s2 where s2: "storylineId (event_layout b) = Some s2"
      "laneGeometries inp s2 = Some lb"
      by (auto simp: laneOf_def split: option.splits)
    have "s1 \<noteq> s2" using d s1(1) s2(1) by simp
    from laneGeometries_disjoint[OF s1(2) s2(2) this]
    show ?thesis by (simp add: lanesDisjoint_def)
  qed
  have no: "\<not> overlaps a b"
  proof (cases "dayKeyOf a = dayKeyOf b")
    case False
    from days[OF False] show ?thesis
      by (auto simp: overlaps_def EVENT_GAP_def)
  next
    case True
    show ?thesis
    proof (cases "storylineId (event_layout a) = storylineId (event_layout b)")
      case s: True
      from same[OF True s] show ?thesis
        by (auto simp: overlaps_def SAME_DAY_VERTICAL_GAP_def)
    next
      case False
      from lanes[OF False] ia ib show ?thesis
        by (auto simp: overlaps_def lanesDisjoint_def insideLane_def LANE_VERTICAL_PADDING_def)
    qed
  qed
  show ?thesis using no same days lanes la lb ia ib sa by blast
qed

theorem rectangles_do_not_overlap_witness:
  "\<not> overlaps
       \<lparr>x_layout = 20, y_layout = 20, width_layout = 200, height_layout = 40,
        event_layout = mkEvent ''e1'' ''2024-01-01'' ''s1'' ''t1'',
        storyline_layout = \<lparr>id_storyline = lit ''s1''\<rparr>,
        eventType_layout = \<lparr>id_type = lit ''t1''\<rparr>\<rparr>
       \<lparr>x_layout = 40, y_layout = 85, width_layout = 200, height_layout = 120,
        event_layout = mkEvent ''e2'' ''2024-01-01 08:00:00'' ''s1'' ''t1'',
        storyline_layout = \<lparr>id_storyline = lit ''s1''\<rparr>,
        eventType_layout = \<lparr>id_type = lit ''t1''\<rparr>\<rparr> \<and>
   eventLayouts exampleTimeline (lit ''e1'') =
     Some \<lparr>x_layout = 20, y_layout = 20, width_layout = 200, height_layout = 40,
           event_layout = mkEvent ''e1'' ''2024-01-01'' ''s1'' ''t1'',
           storyline_layout = \<lparr>id_storyline = lit ''s1''\<rparr>,
           eventType_layout = \<lparr>id_type = lit ''t1''\<rparr>\<rparr> \<and>
   eventLayouts exampleTimeline (lit ''e2'') =
     Some \<lparr>x_layout = 40, y_layout = 85, width_layout = 200, height_layout = 120,
           event_layout = mkEvent ''e2'' ''2024-01-01 08:00:00'' ''s1'' ''t1'',
           storyline_layout = \<lparr>id_storyline = lit ''s1''\<rparr>,
           eventType_layout = \<lparr>id_type = lit ''t1''\<rparr>\<rparr> \<and>
   \<not> overlaps
       \<lparr>x_layout = 20, y_layout = 20, width_layout = 200, height_layout = 40,
        event_layout = mkEvent ''e1'' ''2024-01-01'' ''s1'' ''t1'',
        storyline_layout = \<lparr>id_storyline = lit ''s1''\<rparr>,
        eventType_layout = \<lparr>id_type = lit ''t1''\<rparr>\<rparr>
       \<lparr>x_layout = 320, y_layout = 245, width_layout = 200, height_layout = 40,
        event_layout = mkEvent ''e3'' ''2024-01-02'' ''s2'' ''t1'',
        storyline_layout = \<lparr>id_storyline = lit ''s2''\<rparr>,
        eventType_layout = \<lparr>id_type = lit ''t1''\<rparr>\<rparr> \<and>
   eventLayouts exampleTimeline (lit ''e3'') =
     Some \<lparr>x_layout = 320, y_layout = 245, width_layout = 200, height_layout = 40,
           event_layout = mkEvent ''e3'' ''2024-01-02'' ''s2'' ''t1'',
           storyline_layout = \<lparr>id_storyline = lit ''s2''\<rparr>,
           eventType_layout = \<lparr>id_type = lit ''t1''\<rparr>\<rparr>"
proof -
  have n12: "lit ''e1'' \<noteq> lit ''e2''" and n13: "lit ''e1'' \<noteq> lit ''e3''"
    by (simp_all add: lit_eq_iff)
  from rectangles_do_not_overlap[OF example_layouts(1) example_layouts(2) n12]
       rectangles_do_not_overlap[OF example_layouts(1) example_layouts(3) n13]
       example_layouts
  show ?thesis by blast
qed

section \<open>Properties of the drop-target resolver\<close>





lemma dom_dayColumnGeometries: "dom (dayColumnGeometries inp) = set (sortedUniqueDays inp)"
  unfolding dayColumnGeometries_def by (simp add: columnLoop_dom)











section \<open>Properties of the connection router\<close>

subsection \<open>Connections without a rectangle at one end\<close>

lemma countStep_skip:
  "layouts (fromEventId c) = None \<or> layouts (toEventId c) = None \<Longrightarrow>
   countStep layouts columns c pu = pu"
  by (auto simp: countStep_def split: option.splits)

lemma routeStep_skip:
  "layouts (fromEventId c) = None \<or> layouts (toEventId c) = None \<Longrightarrow>
   routeStep layouts columns c st = Some st"
  by (cases st) (auto simp: routeStep_def split: option.splits)

lemma routeLoop_append:
  "routeLoop layouts columns (xs @ ys) st =
     (case routeLoop layouts columns xs st of
        None \<Rightarrow> None
      | Some st' \<Rightarrow> routeLoop layouts columns ys st')"
  by (induction xs arbitrary: st) (auto split: option.splits)

lemma countPorts_skip:
  assumes "layouts (fromEventId c) = None \<or> layouts (toEventId c) = None"
  shows "countPorts layouts columns (xs @ c # ys) = countPorts layouts columns (xs @ ys)"
  by (simp add: countPorts_def countStep_skip[OF assms])

lemma routeLoop_skip:
  assumes "layouts (fromEventId c) = None \<or> layouts (toEventId c) = None"
  shows "routeLoop layouts columns (xs @ c # ys) st = routeLoop layouts columns (xs @ ys) st"
  by (simp add: routeLoop_append routeStep_skip[OF assms] split: option.splits)

lemma routeConnections_skip:
  assumes "layouts (fromEventId c) = None \<or> layouts (toEventId c) = None"
  shows "routeConnections layouts columns (xs @ c # ys) = routeConnections layouts columns (xs @ ys)"
  by (simp add: routeConnections_def countPorts_skip[OF assms] routeLoop_skip[OF assms])

subsection \<open>The second pass never fails\<close>

lemma dom_ensureUsage: "dom (ensureUsage pu k) = insert k (dom pu)"
  by (auto simp: ensureUsage_def split: if_splits)

lemma countStep_dom:
  "dom (countStep layouts columns c pu) = dom pu \<union> endpointIds layouts c"
proof (cases "layouts (fromEventId c)")
  case None
  then show ?thesis by (simp add: countStep_def endpointIds_def)
next
  case f: (Some f)
  show ?thesis
  proof (cases "layouts (toEventId c)")
    case None
    then show ?thesis by (simp add: countStep_def endpointIds_def f)
  next
    case t: (Some t)
    let ?a = "id_event (event_layout f)" and ?b = "id_event (event_layout t)"
    let ?pu = "ensureUsage (ensureUsage pu ?a) ?b"
    have d: "dom ?pu = dom pu \<union> {?a, ?b}" by (auto simp: dom_ensureUsage)
    have bump: "dom ((?pu(?a \<mapsto> u))(?b \<mapsto> v)) = dom pu \<union> {?a, ?b}" for u v
      using d by auto
    show ?thesis
      unfolding countStep_def endpointIds_def f t
      by (auto simp: Let_def bump d split: option.splits)
  qed
qed

lemma countPorts_fold_dom:
  "dom (foldl (\<lambda>pu conn. countStep layouts columns conn pu) pu0 conns) =
     dom pu0 \<union> (\<Union>c \<in> set conns. endpointIds layouts c)"
  by (induction conns arbitrary: pu0) (auto simp: countStep_dom)

lemma countPorts_dom:
  "dom (countPorts layouts columns conns) = (\<Union>c \<in> set conns. endpointIds layouts c)"
  unfolding countPorts_def countPorts_fold_dom by simp

lemma updUsage_Some:
  "k \<in> dom pu \<Longrightarrow> \<exists>pu'. updUsage f k pu = Some pu' \<and> dom pu' = dom pu"
  by (auto simp: updUsage_def)

lemma routeStep_total:
  assumes "endpointIds layouts c \<subseteq> dom pu"
  shows "\<exists>pu' ps'. routeStep layouts columns c (pu, ps) = Some (pu', ps') \<and> dom pu' = dom pu"
proof (cases "layouts (fromEventId c)")
  case None
  then show ?thesis by (simp add: routeStep_def)
next
  case f: (Some f)
  show ?thesis
  proof (cases "layouts (toEventId c)")
    case None
    then show ?thesis by (simp add: routeStep_def f)
  next
    case t: (Some t)
    let ?a = "id_event (event_layout f)" and ?b = "id_event (event_layout t)"
    from assms have a: "?a \<in> dom pu" and b: "?b \<in> dom pu"
      by (simp_all add: endpointIds_def f t)
    have two: "\<exists>pu1 pu2. updUsage g ?a pu = Some pu1 \<and> updUsage h ?b pu1 = Some pu2 \<and>
                 dom pu2 = dom pu" for g h
    proof -
      from updUsage_Some[OF a, of g] obtain pu1 where 1: "updUsage g ?a pu = Some pu1"
        "dom pu1 = dom pu" by blast
      from b 1(2) have "?b \<in> dom pu1" by simp
      from updUsage_Some[OF this, of h] obtain pu2 where 2: "updUsage h ?b pu1 = Some pu2"
        "dom pu2 = dom pu1" by blast
      show ?thesis using 1 2 by auto
    qed
    show ?thesis
    proof (cases "getDayKey (date (event_layout f)) = getDayKey (date (event_layout t))")
      case True
      from two[of "incUsed (if y_layout f < y_layout t then Bottom else Top)"
                  "incUsed (if y_layout f < y_layout t then Top else Bottom)"]
      obtain pu1 pu2 where
        "updUsage (incUsed (if y_layout f < y_layout t then Bottom else Top)) ?a pu = Some pu1"
        "updUsage (incUsed (if y_layout f < y_layout t then Top else Bottom)) ?b pu1 = Some pu2"
        "dom pu2 = dom pu" by blast
      then show ?thesis
        unfolding routeStep_def by (simp add: f t True Let_def)
    next
      case False
      show ?thesis
      proof (cases "columns (getDayKey (date (event_layout f)))")
        case None
        then show ?thesis unfolding routeStep_def by (simp add: f t False Let_def)
      next
        case cf: (Some cf)
        show ?thesis
        proof (cases "columns (getDayKey (date (event_layout t)))")
          case None
          then show ?thesis unfolding routeStep_def by (simp add: f t False cf Let_def)
        next
          case ct: (Some ct)
          from two[of "incUsed (if x_column cf < x_column ct then Right else Left)"
                      "incUsed (if x_column cf < x_column ct then Left else Right)"]
          obtain pu1 pu2 where
            "updUsage (incUsed (if x_column cf < x_column ct then Right else Left)) ?a pu = Some pu1"
            "updUsage (incUsed (if x_column cf < x_column ct then Left else Right)) ?b pu1 = Some pu2"
            "dom pu2 = dom pu" by blast
          then show ?thesis
            unfolding routeStep_def by (simp add: f t False cf ct Let_def)
        qed
      qed
    qed
  qed
qed

lemma routeLoop_total:
  assumes "\<forall>c \<in> set cs. endpointIds layouts c \<subseteq> dom pu"
  shows "\<exists>st'. routeLoop layouts columns cs (pu, ps) = Some st'"
  using assms
proof (induction cs arbitrary: pu ps)
  case Nil
  show ?case by simp
next
  case (Cons c cs)
  from Cons.prems have "endpointIds layouts c \<subseteq> dom pu" by simp
  from routeStep_total[OF this, of columns ps] obtain pu' ps' where
    s: "routeStep layouts columns c (pu, ps) = Some (pu', ps')" and d: "dom pu' = dom pu"
    by blast
  from Cons.prems d have "\<forall>c \<in> set cs. endpointIds layouts c \<subseteq> dom pu'" by simp
  from Cons.IH[OF this, of ps'] show ?case by (simp add: s)
qed

lemma routeConnections_total: "\<exists>paths. routeConnections layouts columns conns = Some paths"
proof -
  have "\<forall>c \<in> set conns. endpointIds layouts c \<subseteq> dom (countPorts layouts columns conns)"
    unfolding countPorts_dom by auto
  from routeLoop_total[OF this, of columns Map.empty]
  show ?thesis by (auto simp: routeConnections_def)
qed

subsection \<open>The layout reads a connection only between two stacked events\<close>

lemma stackHeightOf_cong:
  assumes "\<forall>e \<in> set evs. \<forall>n \<in> set evs. isConnected cs e n = isConnected cs' e n"
  shows "stackHeightOf ex cs evs = stackHeightOf ex cs' evs"
  using assms
proof (induction ex cs evs rule: stackHeightOf.induct)
  case (1 ex cs)
  show ?case by simp
next
  case (2 ex cs e)
  show ?case by simp
next
  case (3 ex cs e n rest)
  then show ?case by (simp add: gapAfter_def)
qed

lemma maxColumnHeightOf_cong:
  assumes "\<forall>(dk, evs) \<in> set dm. \<forall>e \<in> set evs. \<forall>n \<in> set evs.
             isConnected cs e n = isConnected cs' e n"
  shows "maxColumnHeightOf ex cs dm = maxColumnHeightOf ex cs' dm"
proof -
  have "foldl (\<lambda>maxColumnHeight (k, sameDayEvents).
              max maxColumnHeight (stackHeightOf ex cs sameDayEvents)) h dm =
        foldl (\<lambda>maxColumnHeight (k, sameDayEvents).
              max maxColumnHeight (stackHeightOf ex cs' sameDayEvents)) h dm" for h
    using assms
  proof (induction dm arbitrary: h)
    case Nil
    show ?case by simp
  next
    case (Cons p dm)
    obtain dk evs where p: "p = (dk, evs)" by (cases p) auto
    from Cons.prems have "\<forall>e \<in> set evs. \<forall>n \<in> set evs. isConnected cs e n = isConnected cs' e n"
      by (auto simp: p)
    from stackHeightOf_cong[OF this, of ex] Cons.IH Cons.prems show ?case by (simp add: p)
  qed
  then show ?thesis by (simp add: maxColumnHeightOf_def)
qed

lemma laneLoop_cong:
  assumes "\<forall>sl \<in> set sls. laneHeightOf ex cs by sl = laneHeightOf ex cs' by sl"
  shows "laneLoop ex cs by sls y g = laneLoop ex cs' by sls y g"
  using assms by (induction sls arbitrary: y g) (simp_all add: Let_def)

lemma stackSlots_cong:
  assumes "\<forall>e \<in> set evs. \<forall>n \<in> set evs. isConnected cs e n = isConnected cs' e n"
  shows "stackSlots T L ex cs sl bx evs y0 = stackSlots T L ex cs' sl bx evs y0"
  using assms
proof (induction evs arbitrary: y0)
  case Nil
  show ?case by simp
next
  case (Cons e rest)
  have g: "(case rest of [] \<Rightarrow> SAME_DAY_VERTICAL_GAP | n # _ \<Rightarrow> gapAfter cs e n) =
           (case rest of [] \<Rightarrow> SAME_DAY_VERTICAL_GAP | n # _ \<Rightarrow> gapAfter cs' e n)"
    using Cons.prems by (cases rest) (simp_all add: gapAfter_def)
  have r: "\<forall>e \<in> set rest. \<forall>n \<in> set rest. isConnected cs e n = isConnected cs' e n"
    using Cons.prems by simp
  show ?case
    by (simp add: g Cons.IH[OF r] split: option.splits)
qed

lemma placeStack_cong:
  assumes "\<forall>e \<in> set evs. \<forall>n \<in> set evs. isConnected cs e n = isConnected cs' e n"
  shows "placeStack T L ex cs sl bx evs y0 m = placeStack T L ex cs' sl bx evs y0 m"
  unfolding placeStack_slots stackSlots_cong[OF assms] ..

lemma placeDays_cong:
  assumes "\<forall>(dk, evs) \<in> set dm. \<forall>e \<in> set evs. \<forall>n \<in> set evs.
             isConnected cs e n = isConnected cs' e n"
  shows "placeDays T L ex cs cols sl lane dm m = placeDays T L ex cs' cols sl lane dm m"
  using assms
proof (induction dm arbitrary: m)
  case Nil
  show ?case by simp
next
  case (Cons p dm)
  obtain dk evs where p: "p = (dk, evs)" by (cases p) auto
  from Cons.prems have a: "\<forall>e \<in> set evs. \<forall>n \<in> set evs. isConnected cs e n = isConnected cs' e n"
    by (auto simp: p)
  from Cons.prems have r: "\<forall>(dk, evs) \<in> set dm. \<forall>e \<in> set evs. \<forall>n \<in> set evs.
             isConnected cs e n = isConnected cs' e n" by simp
  show ?case
    unfolding p
    by (simp add: Let_def stackHeightOf_cong[OF a] placeStack_cong[OF a] Cons.IH[OF r]
          split: option.splits)
qed

lemma placeStorylines_cong:
  assumes "\<forall>sl \<in> set sls. \<forall>dm. map_of by (id_storyline sl) = Some dm \<longrightarrow>
             (\<forall>(dk, evs) \<in> set dm. \<forall>e \<in> set evs. \<forall>n \<in> set evs.
                isConnected cs e n = isConnected cs' e n)"
  shows "placeStorylines T L ex cs cols lanes by sls m =
         placeStorylines T L ex cs' cols lanes by sls m"
  using assms
proof (induction sls arbitrary: m)
  case Nil
  show ?case by simp
next
  case (Cons sl sls)
  have r: "\<forall>sl \<in> set sls. \<forall>dm. map_of by (id_storyline sl) = Some dm \<longrightarrow>
             (\<forall>(dk, evs) \<in> set dm. \<forall>e \<in> set evs. \<forall>n \<in> set evs.
                isConnected cs e n = isConnected cs' e n)"
    using Cons.prems by simp
  show ?case
  proof (cases "map_of by (id_storyline sl)")
    case None
    then show ?thesis by (simp add: Cons.IH[OF r] split: option.splits)
  next
    case (Some dm)
    with Cons.prems have "\<forall>(dk, evs) \<in> set dm. \<forall>e \<in> set evs. \<forall>n \<in> set evs.
                isConnected cs e n = isConnected cs' e n" by simp
    from placeDays_cong[OF this] show ?thesis
      by (simp add: Some Cons.IH[OF r] split: option.splits)
  qed
qed

end
